theory Spec2Isabelle
  imports Main
begin

section \<open>Event parsing over program logs (anchorpy/program/event.py)\<close>

text \<open>
  The module scans the log lines of a transaction, keeps a stack of the programs that
  are executing, and decodes the \<open>Program log:\<close> lines written while the parser's own
  program is on top of that stack.  The embedding below follows the module function by
  function.  Exceptions are values of type \<open>error\<close>; a function that can raise returns
  \<open>error + 'a\<close> with \<open>Inl\<close> for the exception.
\<close>

subsection \<open>Exceptions\<close>

text \<open>
  \<open>ValueError\<close> and \<open>IndexError\<close> carry the interpreter's message, which tells an
  out-of-range subscript (\<open>list index out of range\<close>) from a pop of the empty list
  (\<open>pop from empty list\<close>).  \<open>AttributeError\<close> carries the name of the attribute that
  was looked up on \<open>None\<close>.  \<open>BinasciiError\<close> is \<open>binascii.Error\<close>, the only
  exception the module catches from \<open>b64decode\<close>.
\<close>

datatype error =
    ValueError string
  | IndexError string
  | AttributeError string
  | BinasciiError

type_synonym bytes = "nat list"

subsection \<open>The string and list operations the module uses\<close>

text \<open>\<open>s.startswith(p)\<close>.\<close>

fun startswith :: "string \<Rightarrow> string \<Rightarrow> bool" where
  "startswith s [] = True"
| "startswith [] (p # ps) = False"
| "startswith (c # cs) (p # ps) = (c = p \<and> startswith cs ps)"

text \<open>\<open>sub in s\<close>.\<close>

fun contains :: "string \<Rightarrow> string \<Rightarrow> bool" where
  "contains [] sub = (sub = [])"
| "contains (c # cs) sub = (startswith (c # cs) sub \<or> contains cs sub)"

text \<open>
  \<open>s.split(sep)\<close> for a non-empty separator: the occurrences of \<open>sep\<close> are found from
  left to right without overlap, and the pieces between them are returned, so the
  result always has at least one element.  \<open>split_from sep cur s\<close> scans \<open>s\<close> with
  \<open>cur\<close> the piece collected so far.  (Python raises on an empty separator; the module
  only passes literals, and the model then returns the string unsplit.)
\<close>

fun split_from :: "string \<Rightarrow> string \<Rightarrow> string \<Rightarrow> string list" where
  "split_from sep cur [] = [cur]"
| "split_from sep cur (c # cs) =
     (if sep \<noteq> [] \<and> startswith (c # cs) sep
      then cur # split_from sep [] (drop (length sep - 1) cs)
      else split_from sep (cur @ [c]) cs)"

definition split :: "string \<Rightarrow> string \<Rightarrow> string list" where
  "split s sep = split_from sep [] s"

text \<open>\<open>xs[i]\<close> for a non-negative index: out of range raises \<open>IndexError\<close>.\<close>

definition index :: "'a list \<Rightarrow> nat \<Rightarrow> error + 'a" where
  "index xs i =
     (if i < length xs then Inr (xs ! i) else Inl (IndexError ''list index out of range''))"

subsection \<open>The collaborators and what the parser does to them\<close>

text \<open>
  Three things lie outside the module: \<open>base64.b64decode\<close>, the event coder
  (\<open>self.coder.events.parse\<close>) and the caller's callback.  \<open>b64decode\<close> is a parameter
  \<open>b64\<close> of the model, of type \<open>string \<Rightarrow> error + bytes\<close>; the coder is a field of the
  parser, a function from bytes to an optional event.  What the parser does to the
  outside, and to its own stack, is recorded as a list of actions in the order the
  source performs them: a call of \<open>LogScanner.to_next\<close> with its result, a call of
  \<open>b64decode\<close> and of the coder with their argument, a call of the callback with the
  event, and each \<open>push\<close> and each \<open>pop\<close> that succeeded.  The coder and the
  callback are taken to return; an exception of \<open>b64decode\<close> other than the one the
  module catches leaves the parse like any other.
\<close>

datatype 'ev action =
    ToNext "string option"
  | B64decode string
  | Parse bytes
  | Callback 'ev
  | Push string
  | Pop

definition LOG_START_INDEX :: nat where
  "LOG_START_INDEX = length ''Program log: ''"

subsection \<open>ExecutionContext\<close>

record ExecutionContext =
  stack :: "string list"

text \<open>
  The constructor receives what \<open>to_next\<close> returned, cast to \<open>str\<close> without a check:
  on \<open>None\<close> the attribute lookup \<open>log.split\<close> raises \<open>AttributeError\<close>, which the
  \<open>except IndexError\<close> clause does not catch.  An \<open>IndexError\<close> from either subscript
  becomes the \<open>ValueError\<close>.
\<close>

definition ExecutionContext_init :: "string option \<Rightarrow> error + ExecutionContext" where
  "ExecutionContext_init log =
     (case log of
        None \<Rightarrow> Inl (AttributeError ''split'')
      | Some l \<Rightarrow>
          (case index (split l ''Program '') 1 of
             Inl e \<Rightarrow> Inl (ValueError ''Could not find program invocation log line'')
           | Inr rest \<Rightarrow>
               (case index (split rest '' invoke ['') 0 of
                  Inl e \<Rightarrow> Inl (ValueError ''Could not find program invocation log line'')
                | Inr program \<Rightarrow> Inr \<lparr>stack = [program]\<rparr>)))"

text \<open>\<open>self.stack[-1]\<close>: the callers test that the stack is not empty first.\<close>

definition program :: "ExecutionContext \<Rightarrow> error + string" where
  "program execution =
     (if stack execution = [] then Inl (IndexError ''list index out of range'')
      else Inr (last (stack execution)))"

definition push :: "ExecutionContext \<Rightarrow> string \<Rightarrow> ExecutionContext" where
  "push execution new_program = execution\<lparr>stack := stack execution @ [new_program]\<rparr>"

definition pop :: "ExecutionContext \<Rightarrow> error + ExecutionContext" where
  "pop execution =
     (if stack execution = [] then Inl (IndexError ''pop from empty list'')
      else Inr (execution\<lparr>stack := butlast (stack execution)\<rparr>))"

subsection \<open>LogScanner\<close>

record LogScanner =
  logs :: "string list"

definition to_next :: "LogScanner \<Rightarrow> string option \<times> LogScanner" where
  "to_next scanner =
     (case logs scanner of
        [] \<Rightarrow> (None, scanner)
      | log # rest \<Rightarrow> (Some log, scanner\<lparr>logs := rest\<rparr>))"

subsection \<open>EventParser\<close>

text \<open>
  \<open>program_id\<close> is the text \<open>str(self.program_id)\<close>, the only form in which the module
  uses the key; \<open>coder\<close> is \<open>self.coder.events.parse\<close>.
\<close>

record 'ev EventParser =
  program_id :: string
  coder :: "bytes \<Rightarrow> 'ev option"

definition handle_system_log :: "'ev EventParser \<Rightarrow> string \<Rightarrow> error + (string option \<times> bool)" where
  "handle_system_log self log =
     (case index (split log '':'') 0 of
        Inl e \<Rightarrow> Inl e
      | Inr log_start \<Rightarrow>
          (case index (split log_start ''Program '') 1 of
             Inl e \<Rightarrow> Inl e
           | Inr rest \<Rightarrow>
               (case index (split rest '' '') 1 of
                  Inl e \<Rightarrow> Inl e
                | Inr token \<Rightarrow>
                    if token = ''success'' then Inr (None, True)
                    else if startswith log_start (''Program '' @ program_id self @ '' invoke'')
                      then Inr (Some (program_id self), False)
                    else if contains log_start ''invoke'' then Inr (Some ''cpi'', False)
                    else Inr (None, False))))"

definition handle_program_log ::
  "(string \<Rightarrow> error + bytes) \<Rightarrow> 'ev EventParser \<Rightarrow> string \<Rightarrow>
     'ev action list \<times> (error + ('ev option \<times> string option \<times> bool))" where
  "handle_program_log b64 self log =
     (if startswith log ''Program log:'' then
        (let log_str = drop LOG_START_INDEX log in
         case b64 log_str of
           Inl e \<Rightarrow>
             (if e = BinasciiError then ([B64decode log_str], Inr (None, None, False))
              else ([B64decode log_str], Inl e))
         | Inr decoded \<Rightarrow>
             ([B64decode log_str, Parse decoded], Inr (coder self decoded, None, False)))
      else
        (case handle_system_log self log of
           Inl e \<Rightarrow> ([], Inl e)
         | Inr (new_program, did_pop) \<Rightarrow> ([], Inr (None, new_program, did_pop))))"

definition handle_log ::
  "(string \<Rightarrow> error + bytes) \<Rightarrow> 'ev EventParser \<Rightarrow> ExecutionContext \<Rightarrow> string \<Rightarrow>
     'ev action list \<times> (error + ('ev option \<times> string option \<times> bool))" where
  "handle_log b64 self execution log =
     (if stack execution \<noteq> [] \<and> program execution = Inr (program_id self)
      then handle_program_log b64 self log
      else
        (case handle_system_log self log of
           Inl e \<Rightarrow> ([], Inl e)
         | Inr (new_program, did_pop) \<Rightarrow> ([], Inr (None, new_program, did_pop))))"

text \<open>
  One turn of the \<open>while\<close> loop of \<open>parse_logs\<close>, up to the \<open>to_next\<close> that ends it:
  classify the line, hand the event to the callback, push, pop.  An exception leaves
  the loop with the actions performed so far.
\<close>

definition parse_logs_body ::
  "(string \<Rightarrow> error + bytes) \<Rightarrow> 'ev EventParser \<Rightarrow> ExecutionContext \<Rightarrow> string \<Rightarrow>
     'ev action list \<times> (error + ExecutionContext)" where
  "parse_logs_body b64 self execution log =
     (case handle_log b64 self execution log of
        (acts, Inl e) \<Rightarrow> (acts, Inl e)
      | (acts, Inr (event, new_program, did_pop)) \<Rightarrow>
          (let acts1 = acts @ (case event of None \<Rightarrow> [] | Some ev \<Rightarrow> [Callback ev]);
               acts2 = acts1 @ (case new_program of None \<Rightarrow> [] | Some p \<Rightarrow> [Push p]);
               execution1 = (case new_program of None \<Rightarrow> execution | Some p \<Rightarrow> push execution p)
           in if did_pop then
                (case pop execution1 of
                   Inl e \<Rightarrow> (acts2, Inl e)
                 | Inr execution2 \<Rightarrow> (acts2 @ [Pop], Inr execution2))
              else (acts2, Inr execution1)))"

text \<open>
  The loop itself.  \<open>log\<close> is the line \<open>to_next\<close> returned last; the loop ends when it
  is \<open>None\<close>.  The result is the list of actions and either the exception that ended
  the scan or the execution context the scan ended with.
\<close>

function parse_logs_loop ::
  "(string \<Rightarrow> error + bytes) \<Rightarrow> 'ev EventParser \<Rightarrow> ExecutionContext \<Rightarrow> LogScanner \<Rightarrow>
     string option \<Rightarrow> 'ev action list \<times> (error + ExecutionContext)" where
  "parse_logs_loop b64 self execution log_scanner None = ([], Inr execution)"
| "parse_logs_loop b64 self execution log_scanner (Some log) =
     (case parse_logs_body b64 self execution log of
        (acts, Inl e) \<Rightarrow> (acts, Inl e)
      | (acts, Inr execution1) \<Rightarrow>
          (case parse_logs_loop b64 self execution1
                  (snd (to_next log_scanner)) (fst (to_next log_scanner)) of
             (acts1, r) \<Rightarrow> (acts @ ToNext (fst (to_next log_scanner)) # acts1, r)))"
  by pat_completeness auto
termination
  by (relation "measure (\<lambda>(b64, self, execution, log_scanner, log).
        length (logs log_scanner) + (case log of None \<Rightarrow> 0 | Some l \<Rightarrow> 1))")
     (auto simp: to_next_def split: list.splits)

definition parse_logs ::
  "(string \<Rightarrow> error + bytes) \<Rightarrow> 'ev EventParser \<Rightarrow> string list \<Rightarrow>
     'ev action list \<times> (error + ExecutionContext)" where
  "parse_logs b64 self lines =
     (let log_scanner = \<lparr>logs = lines\<rparr>;
          first = fst (to_next log_scanner);
          log_scanner = snd (to_next log_scanner)
      in case ExecutionContext_init first of
           Inl e \<Rightarrow> ([ToNext first], Inl e)
         | Inr execution \<Rightarrow>
             (case parse_logs_loop b64 self execution
                     (snd (to_next log_scanner)) (fst (to_next log_scanner)) of
                (acts, r) \<Rightarrow> (ToNext first # ToNext (fst (to_next log_scanner)) # acts, r)))"

text \<open>
  The scan from the point where the loop is about to call \<open>to_next\<close>, with \<open>lines\<close>
  left in the scanner: the call of \<open>to_next\<close>, then the loop on its result.
\<close>

definition resume ::
  "(string \<Rightarrow> error + bytes) \<Rightarrow> 'ev EventParser \<Rightarrow> ExecutionContext \<Rightarrow> string list \<Rightarrow>
     'ev action list \<times> (error + ExecutionContext)" where
  "resume b64 self execution lines =
     (case parse_logs_loop b64 self execution
             (snd (to_next \<lparr>logs = lines\<rparr>)) (fst (to_next \<lparr>logs = lines\<rparr>)) of
        (acts, r) \<Rightarrow> (ToNext (fst (to_next \<lparr>logs = lines\<rparr>)) # acts, r))"

subsection \<open>Collaborators for the examples\<close>

text \<open>
  The general theorems hold for every \<open>b64\<close> and every coder.  To run the parser on
  concrete lines the examples need one of each.  \<open>b64decode\<close> follows
  \<open>base64.b64decode\<close> with its default \<open>validate=False\<close>: a character outside ASCII
  raises \<open>ValueError\<close>; otherwise \<open>binascii.a2b_base64\<close> skips every character that
  is not in the alphabet, stops at the padding that completes a quad, and raises
  \<open>binascii.Error\<close> when the data characters do not fill the last quad.
\<close>

definition b64_alphabet :: string where
  "b64_alphabet = ''ABCDEFGHIJKLMNOPQRSTUVWXYZabcdefghijklmnopqrstuvwxyz0123456789+/''"

fun position :: "char \<Rightarrow> string \<Rightarrow> nat option" where
  "position c [] = None"
| "position c (x # xs) = (if c = x then Some 0 else map_option Suc (position c xs))"

fun a2b_base64 :: "nat \<Rightarrow> nat \<Rightarrow> nat \<Rightarrow> string \<Rightarrow> bytes \<Rightarrow> error + bytes" where
  "a2b_base64 quad_pos leftchar pads [] out =
     (if quad_pos \<noteq> 0 then Inl BinasciiError else Inr out)"
| "a2b_base64 quad_pos leftchar pads (c # cs) out =
     (if c = CHR ''='' then
        (if 2 \<le> quad_pos \<and> 4 \<le> quad_pos + (pads + 1) then Inr out
         else a2b_base64 quad_pos leftchar (if 2 \<le> quad_pos then pads + 1 else pads) cs out)
      else
        (case position c b64_alphabet of
           None \<Rightarrow> a2b_base64 quad_pos leftchar pads cs out
         | Some v \<Rightarrow>
             if quad_pos = 0 then a2b_base64 1 v 0 cs out
             else if quad_pos = 1
               then a2b_base64 2 (v mod 16) 0 cs (out @ [leftchar * 4 + v div 16])
             else if quad_pos = 2
               then a2b_base64 3 (v mod 4) 0 cs (out @ [leftchar * 16 + v div 4])
             else a2b_base64 0 0 0 cs (out @ [leftchar * 64 + v])))"

definition b64decode :: "string \<Rightarrow> error + bytes" where
  "b64decode s =
     (if list_ex (\<lambda>c. 128 \<le> (of_char c :: nat)) s
      then Inl (ValueError ''string argument should contain only ASCII characters'')
      else a2b_base64 0 0 0 s [])"

text \<open>A coder that takes every non-empty payload for an event, the payload itself.\<close>

definition example_coder :: "bytes \<Rightarrow> bytes option" where
  "example_coder data = (if data = [] then None else Some data)"

definition example_parser :: "bytes EventParser" where
  "example_parser = \<lparr>program_id = ''A'', coder = example_coder\<rparr>"

subsection \<open>What a run may look like\<close>

text \<open>The results of the calls of \<open>to_next\<close>, in the order of the calls.\<close>

fun reads :: "'ev action list \<Rightarrow> string option list" where
  "reads [] = []"
| "reads (ToNext r # acts) = r # reads acts"
| "reads (a # acts) = reads acts"

text \<open>
  A check on the order of the actions of a run.  \<open>cur\<close> is the line read last, until
  it has been decoded; \<open>pending\<close> is an event the coder has returned and the callback
  has not received yet.  The coder may be called on the line read last only, once, on
  what \<open>b64decode\<close> returns for the text after the prefix; an event it returns must go
  to the callback in the very next action; the callback is called at no other time.
\<close>

fun in_order ::
  "(string \<Rightarrow> error + bytes) \<Rightarrow> 'ev EventParser \<Rightarrow> string option \<Rightarrow> 'ev option \<Rightarrow>
     'ev action list \<Rightarrow> bool" where
  "in_order b64 self cur pending [] = (pending = None)"
| "in_order b64 self cur (Some ev) (a # acts) = (a = Callback ev \<and> in_order b64 self None None acts)"
| "in_order b64 self cur None (ToNext r # acts) = in_order b64 self r None acts"
| "in_order b64 self cur None (Parse data # acts) =
     (case cur of
        None \<Rightarrow> False
      | Some l \<Rightarrow>
          startswith l ''Program log:'' \<and> b64 (drop LOG_START_INDEX l) = Inr data \<and>
          in_order b64 self None (coder self data) acts)"
| "in_order b64 self cur None (Callback ev # acts) = False"
| "in_order b64 self cur None (a # acts) = in_order b64 self cur None acts"

subsection \<open>Well-formed inputs\<close>

text \<open>The pushes and the pops of a run.\<close>

fun pushes :: "'ev action list \<Rightarrow> nat" where
  "pushes [] = 0"
| "pushes (Push p # acts) = Suc (pushes acts)"
| "pushes (a # acts) = pushes acts"

fun pops :: "'ev action list \<Rightarrow> nat" where
  "pops [] = 0"
| "pops (Pop # acts) = Suc (pops acts)"
| "pops (a # acts) = pops acts"

text \<open>
  The lines of a well-formed log, by their text.  A program name has no space and no
  colon, does not end in \<open>Program\<close> and does not contain \<open>invoke\<close>; a depth and a
  count of compute units are written in digits.
\<close>

definition program_name :: "string \<Rightarrow> bool" where
  "program_name q \<longleftrightarrow>
     CHR '' '' \<notin> set q \<and> CHR '':'' \<notin> set q \<and>
     \<not> contains (q @ '' '') ''Program '' \<and> \<not> contains q ''invoke''"

definition digits :: "string \<Rightarrow> bool" where
  "digits d \<longleftrightarrow> list_all (\<lambda>c. c \<in> set ''0123456789'') d"

definition invoke_line :: "string \<Rightarrow> string \<Rightarrow> string" where
  "invoke_line q depth = ''Program '' @ q @ '' invoke ['' @ depth @ '']''"

definition success_line :: "string \<Rightarrow> string" where
  "success_line q = ''Program '' @ q @ '' success''"

definition consumed_line :: "string \<Rightarrow> string \<Rightarrow> string \<Rightarrow> string" where
  "consumed_line q used budget =
     ''Program '' @ q @ '' consumed '' @ used @ '' of '' @ budget @ '' compute units''"

definition message_line :: "string \<Rightarrow> string" where
  "message_line payload = ''Program log: '' @ payload"

text \<open>
  \<open>nested b64 target on_top ls\<close>: the lines \<open>ls\<close> are what one invocation may log
  between its first and its last line, where \<open>on_top\<close> tells whether the invocation is
  one of the target.  Such lines are \<open>consumed\<close> lines, whole inner invocations (the
  \<open>invoke\<close> line of a program, the lines of that invocation, the \<open>success\<close> line of
  the same program) and, in an invocation of the target only, \<open>Program log:\<close> lines
  whose payload \<open>b64decode\<close> decodes or rejects with \<open>binascii.Error\<close>.  A
  \<open>Program log:\<close> line inside the invocation of another program, and a payload on
  which \<open>b64decode\<close> raises another exception, are not part of the grammar.
\<close>

inductive nested :: "(string \<Rightarrow> error + bytes) \<Rightarrow> string \<Rightarrow> bool \<Rightarrow> string list \<Rightarrow> bool"
  for b64 :: "string \<Rightarrow> error + bytes" and target :: string where
  nothing: "nested b64 target on_top []"
| consumed:
    "program_name q \<Longrightarrow> digits used \<Longrightarrow> digits budget \<Longrightarrow> nested b64 target on_top ls \<Longrightarrow>
     nested b64 target on_top (consumed_line q used budget # ls)"
| undecodable:
    "b64 payload = Inl BinasciiError \<Longrightarrow> nested b64 target True ls \<Longrightarrow>
     nested b64 target True (message_line payload # ls)"
| message:
    "b64 payload = Inr data \<Longrightarrow> nested b64 target True ls \<Longrightarrow>
     nested b64 target True (message_line payload # ls)"
| invocation:
    "program_name q \<Longrightarrow> digits depth \<Longrightarrow> nested b64 target (q = target) body \<Longrightarrow>
     nested b64 target on_top ls \<Longrightarrow>
     nested b64 target on_top (invoke_line q depth # body @ success_line q # ls)"

text \<open>
  A well-formed input whose outermost invocation closes: the \<open>invoke\<close> line of a
  program, the lines of that invocation, and the \<open>success\<close> line of the same program.
\<close>

inductive well_formed :: "(string \<Rightarrow> error + bytes) \<Rightarrow> string \<Rightarrow> string list \<Rightarrow> bool"
  for b64 :: "string \<Rightarrow> error + bytes" and target :: string where
  outermost:
    "program_name q \<Longrightarrow> digits depth \<Longrightarrow> nested b64 target (q = target) body \<Longrightarrow>
     well_formed b64 target (invoke_line q depth # body @ [success_line q])"

code_pred nested .

code_pred well_formed .

section \<open>Properties\<close>

subsection \<open>The scan as a recursion over the lines\<close>

lemma resume_Nil: "resume b64 self execution [] = ([ToNext None], Inr execution)"
  by (simp add: resume_def to_next_def)

lemma resume_Cons:
  "resume b64 self execution (l # ls) =
     (case parse_logs_body b64 self execution l of
        (acts, Inl e) \<Rightarrow> (ToNext (Some l) # acts, Inl e)
      | (acts, Inr execution1) \<Rightarrow>
          (case resume b64 self execution1 ls of
             (acts1, r) \<Rightarrow> (ToNext (Some l) # acts @ acts1, r)))"
  by (simp add: resume_def to_next_def split: prod.splits sum.splits)

lemma parse_logs_Cons:
  "parse_logs b64 self (first # rest) =
     (case ExecutionContext_init (Some first) of
        Inl e \<Rightarrow> ([ToNext (Some first)], Inl e)
      | Inr execution \<Rightarrow>
          (case resume b64 self execution rest of
             (acts, r) \<Rightarrow> (ToNext (Some first) # acts, r)))"
  by (simp add: parse_logs_def resume_def to_next_def Let_def split: prod.splits sum.splits)

lemmas run_defs = parse_logs_Cons resume_Cons resume_Nil parse_logs_body_def handle_log_def
  handle_program_log_def handle_system_log_def ExecutionContext_init_def split_def index_def
  program_def push_def pop_def LOG_START_INDEX_def

lemmas example_defs = example_parser_def example_coder_def b64decode_def b64_alphabet_def

subsection \<open>Splitting\<close>

lemma split_from_nonempty: "split_from sep cur s \<noteq> []"
  by (induction s arbitrary: cur) auto

lemma split_from_absent: "\<not> contains s sep \<Longrightarrow> split_from sep cur s = [cur @ s]"
  by (induction s arbitrary: cur) auto

lemma split_from_present:
  "sep \<noteq> [] \<Longrightarrow> contains s sep \<Longrightarrow> 2 \<le> length (split_from sep cur s)"
proof (induction s arbitrary: cur)
  case Nil
  then show ?case by simp
next
  case (Cons c cs)
  show ?case
  proof (cases "startswith (c # cs) sep")
    case True
    have "split_from sep [] (drop (length sep - 1) cs) \<noteq> []"
      by (rule split_from_nonempty)
    then have "1 \<le> length (split_from sep [] (drop (length sep - 1) cs))"
      by (cases "split_from sep [] (drop (length sep - 1) cs)") auto
    with True Cons.prems show ?thesis by simp
  next
    case False
    with Cons show ?thesis by simp
  qed
qed

lemma split_from_colon_hd:
  "split_from '':'' cur s ! 0 = cur @ takeWhile (\<lambda>c. c \<noteq> CHR '':'') s"
  by (induction s arbitrary: cur) auto

lemma index_split_colon:
  "index (split log '':'') 0 = Inr (takeWhile (\<lambda>c. c \<noteq> CHR '':'') log)"
  using split_from_nonempty [of "'':''" "[]" log] split_from_colon_hd [of "[]" log]
  by (simp add: index_def split_def)

lemma index_split_absent:
  "\<not> contains s sep \<Longrightarrow>
   index (split s sep) (Suc 0) = Inl (IndexError ''list index out of range'')"
  by (simp add: index_def split_def split_from_absent)

subsection \<open>Scanning a longer input\<close>

lemma resume_actions_nonempty: "fst (resume b64 self execution lines) \<noteq> []"
  by (cases lines) (auto simp: resume_Nil resume_Cons split: prod.splits sum.splits)

lemma resume_append:
  "resume b64 self execution pre = (acts, Inr execution') \<Longrightarrow>
   resume b64 self execution (pre @ post) =
     (case resume b64 self execution' post of (acts', r) \<Rightarrow> (butlast acts @ acts', r))"
proof (induction pre arbitrary: execution acts)
  case Nil
  then show ?case by (auto simp: resume_Nil split: prod.splits)
next
  case (Cons l ls)
  from Cons.prems obtain a execution1 a1 where
    body: "parse_logs_body b64 self execution l = (a, Inr execution1)" and
    rest: "resume b64 self execution1 ls = (a1, Inr execution')" and
    acts: "acts = ToNext (Some l) # a @ a1"
    by (auto simp: resume_Cons split: prod.splits sum.splits)
  have "a1 \<noteq> []"
    using resume_actions_nonempty [of b64 self execution1 ls] rest by simp
  then have "butlast acts = ToNext (Some l) # a @ butlast a1"
    by (simp add: acts butlast_append)
  with Cons.IH [OF rest] body show ?case
    by (simp add: resume_Cons split: prod.splits)
qed

lemma parse_logs_append:
  assumes "parse_logs b64 self (first # pre) = (acts, Inr execution')"
  shows "parse_logs b64 self (first # pre @ post) =
     (case resume b64 self execution' post of (acts', r) \<Rightarrow> (butlast acts @ acts', r))"
proof -
  from assms obtain execution a where
    init: "ExecutionContext_init (Some first) = Inr execution" and
    pre: "resume b64 self execution pre = (a, Inr execution')" and
    acts: "acts = ToNext (Some first) # a"
    by (auto simp: parse_logs_Cons split: prod.splits sum.splits)
  have "a \<noteq> []"
    using resume_actions_nonempty [of b64 self execution pre] pre by simp
  then have "butlast acts = ToNext (Some first) # butlast a"
    by (simp add: acts)
  with resume_append [OF pre, of post] init show ?thesis
    by (simp add: parse_logs_Cons split: prod.splits)
qed

subsection \<open>The first line\<close>

text \<open>
  C9, on the empty input.  \<open>to_next\<close> returns \<open>None\<close>, the cast passes it on, and the
  constructor of the execution context looks up \<open>split\<close> on it: the parse ends with
  \<open>AttributeError\<close> after the one call of \<open>to_next\<close>, so the callback is never
  invoked, but the exception is not the \<open>ValueError\<close> with which the constructor
  reports a first line that announces no invocation.
\<close>

theorem empty_input_raises_attribute_error:
  "parse_logs b64 self [] = ([ToNext None], Inl (AttributeError ''split'')) \<and>
   snd (parse_logs b64 self []) \<noteq> Inl (ValueError ''Could not find program invocation log line'')"
  by (simp add: parse_logs_def to_next_def ExecutionContext_init_def)

text \<open>
  C4 (as the code has it).  A first line that does not contain \<open>Program \<close> makes the
  parse fail with the \<open>ValueError\<close>; only that line has been read, no later line is
  processed and the callback is not invoked.
\<close>

theorem parse_logs_first_line_without_marker:
  "\<not> contains first ''Program '' \<Longrightarrow>
   parse_logs b64 self (first # rest) =
     ([ToNext (Some first)], Inl (ValueError ''Could not find program invocation log line''))"
  by (simp add: parse_logs_Cons ExecutionContext_init_def index_split_absent)

theorem parse_logs_first_line_without_marker_witness:
  "\<not> contains ''hello world'' ''Program '' \<and>
   parse_logs b64decode example_parser [''hello world'', ''Program A success''] =
     ([ToNext (Some ''hello world'')],
      Inl (ValueError ''Could not find program invocation log line''))"
  using parse_logs_first_line_without_marker
    [of "''hello world''" b64decode example_parser "[''Program A success'']"]
  by simp

text \<open>
  C4 (as the specification states it) fails: the first line \<open>Program A success\<close> has
  no \<open> invoke [\<close> after the identifier, and the parse accepts it, seeding the stack
  with the text after the marker.
\<close>

theorem first_line_without_invoke_is_accepted:
  "\<not> contains ''Program A success'' '' invoke ['' \<and>
   parse_logs b64decode example_parser [''Program A success''] =
     ([ToNext (Some ''Program A success''), ToNext None], Inr \<lparr>stack = [''A success'']\<rparr>)"
  by (simp add: run_defs)

subsection \<open>The two nested-invocation examples\<close>

text \<open>
  While the target is not on top of the stack, no line is passed to \<open>b64decode\<close> or
  to the coder: \<open>handle_log\<close> performs no action at all.
\<close>

lemma handle_log_off_target:
  "stack execution = [] \<or> last (stack execution) \<noteq> program_id self \<Longrightarrow>
   fst (handle_log b64 self execution log) = []"
  by (auto simp: handle_log_def program_def split: sum.splits prod.splits)

text \<open>
  C1, on the example of the specification.  With target \<open>A\<close>, the line
  \<open>Program log: \<dots>\<close> is read while the frame pushed for \<open>B\<close> is on top.  It is never
  decoded, and no event is delivered; but the scan does not complete: the text before
  the colon is \<open>Program log\<close>, which has no second token after the marker, and the
  subscript in \<open>handle_system_log\<close> raises \<open>IndexError\<close>.  The same happens with
  identifiers in the form of public keys, when a program invoked by the target logs a
  message of its own.
\<close>

theorem parse_logs_cross_talk_example:
  "parse_logs b64 \<lparr>program_id = ''A'', coder = c\<rparr>
     [''Program A invoke [1]'', ''Program B invoke [2]'', ''Program log: '' @ payload,
      ''Program B success'', ''Program A success''] =
   ([ToNext (Some ''Program A invoke [1]''), ToNext (Some ''Program B invoke [2]''),
     Push ''cpi'', ToNext (Some (''Program log: '' @ payload))],
    Inl (IndexError ''list index out of range'')) \<and>
   parse_logs b64
     \<lparr>program_id = ''Fg6PaFpoGXkYsidMpWTK6W2BeZ7FEfcYkg476zPFsLnS'', coder = c\<rparr>
     [''Program Fg6PaFpoGXkYsidMpWTK6W2BeZ7FEfcYkg476zPFsLnS invoke [1]'',
      ''Program TokenkegQfeZyiNwAJbNbGKPFXCWuBvf9Ss623VQ5DA invoke [2]'',
      ''Program log: Instruction: Transfer'',
      ''Program TokenkegQfeZyiNwAJbNbGKPFXCWuBvf9Ss623VQ5DA success'',
      ''Program Fg6PaFpoGXkYsidMpWTK6W2BeZ7FEfcYkg476zPFsLnS success''] =
   ([ToNext (Some ''Program Fg6PaFpoGXkYsidMpWTK6W2BeZ7FEfcYkg476zPFsLnS invoke [1]''),
     ToNext (Some ''Program TokenkegQfeZyiNwAJbNbGKPFXCWuBvf9Ss623VQ5DA invoke [2]''),
     Push ''cpi'', ToNext (Some ''Program log: Instruction: Transfer'')],
    Inl (IndexError ''list index out of range''))"
  by (simp add: run_defs)

text \<open>
  C2.  With target \<open>A\<close>, the pop on \<open>Program C success\<close> brings \<open>A\<close> back on top, so
  the following \<open>Program log:\<close> line is decoded and its event is handed to the
  callback, once; the scan completes.
\<close>

theorem parse_logs_nested_round_trip:
  "b64 payload = Inr decoded \<Longrightarrow> c decoded = Some ev \<Longrightarrow>
   parse_logs b64 \<lparr>program_id = ''A'', coder = c\<rparr>
     [''Program A invoke [1]'', ''Program C invoke [2]'', ''Program C success'',
      ''Program log: '' @ payload, ''Program A success''] =
   ([ToNext (Some ''Program A invoke [1]''), ToNext (Some ''Program C invoke [2]''),
     Push ''cpi'', ToNext (Some ''Program C success''), Pop,
     ToNext (Some (''Program log: '' @ payload)), B64decode payload, Parse decoded,
     Callback ev, ToNext (Some ''Program A success''), Pop, ToNext None],
    Inr \<lparr>stack = []\<rparr>)"
  by (simp add: run_defs)

theorem parse_logs_nested_round_trip_witness:
  "b64decode ''AQID'' = Inr [1, 2, 3] \<and> example_coder [1, 2, 3] = Some [1, 2, 3] \<and>
   parse_logs b64decode \<lparr>program_id = ''A'', coder = example_coder\<rparr>
     [''Program A invoke [1]'', ''Program C invoke [2]'', ''Program C success'',
      ''Program log: AQID'', ''Program A success''] =
   ([ToNext (Some ''Program A invoke [1]''), ToNext (Some ''Program C invoke [2]''),
     Push ''cpi'', ToNext (Some ''Program C success''), Pop,
     ToNext (Some ''Program log: AQID''), B64decode ''AQID'', Parse [1, 2, 3],
     Callback [1, 2, 3], ToNext (Some ''Program A success''), Pop, ToNext None],
    Inr \<lparr>stack = []\<rparr>)"
proof -
  have d: "b64decode ''AQID'' = Inr [1, 2, 3]"
    by (simp add: example_defs)
  have e: "example_coder [1, 2, 3] = Some [1, 2, 3]"
    by (simp add: example_defs)
  from parse_logs_nested_round_trip
    [of b64decode "''AQID''" "[1, 2, 3]" example_coder "[1, 2, 3]"] d e
  show ?thesis
    by simp
qed

subsection \<open>Delivery of the events\<close>

lemma reads_append: "reads (xs @ ys) = reads xs @ reads ys"
  by (induction xs rule: reads.induct) auto

lemma body_reads: "reads (fst (parse_logs_body b64 self execution l)) = []"
  by (auto simp: parse_logs_body_def handle_log_def handle_program_log_def Let_def
      split: sum.splits prod.splits option.splits if_splits)

lemma body_in_order:
  "in_order b64 self (Some l) None (fst (parse_logs_body b64 self execution l) @ ToNext r # rest)
     = in_order b64 self r None rest"
  by (auto simp: parse_logs_body_def handle_log_def handle_program_log_def Let_def
      split: sum.splits prod.splits option.splits if_splits)

lemma body_in_order_end:
  "in_order b64 self (Some l) None (fst (parse_logs_body b64 self execution l))"
  by (auto simp: parse_logs_body_def handle_log_def handle_program_log_def Let_def
      split: sum.splits prod.splits option.splits if_splits)

lemma resume_starts_with_read:
  "\<exists>rest. fst (resume b64 self execution ls) = ToNext (case ls of [] \<Rightarrow> None | l # _ \<Rightarrow> Some l) # rest"
  by (cases ls) (auto simp: resume_Nil resume_Cons split: prod.splits sum.splits)

lemma resume_in_order: "in_order b64 self cur None (fst (resume b64 self execution ls))"
proof (induction ls arbitrary: execution cur)
  case Nil
  show ?case by (simp add: resume_Nil)
next
  case (Cons l ls)
  obtain a r where body: "parse_logs_body b64 self execution l = (a, r)"
    by (cases "parse_logs_body b64 self execution l")
  show ?case
  proof (cases r)
    case (Inl e)
    with body body_in_order_end [of b64 self l execution] show ?thesis
      by (simp add: resume_Cons)
  next
    case (Inr execution1)
    obtain a1 r1 where tail: "resume b64 self execution1 ls = (a1, r1)"
      by (cases "resume b64 self execution1 ls")
    obtain rest where rest: "a1 = ToNext (case ls of [] \<Rightarrow> None | l # _ \<Rightarrow> Some l) # rest"
      using resume_starts_with_read [of b64 self execution1 ls] tail by auto
    from Cons.IH [of None execution1] tail rest
    have "in_order b64 self (case ls of [] \<Rightarrow> None | l # _ \<Rightarrow> Some l) None rest"
      by simp
    then have "in_order b64 self (Some l) None (a @ a1)"
      using body_in_order [of b64 self l execution _ rest] body rest by simp
    with body Inr tail show ?thesis
      by (simp add: resume_Cons)
  qed
qed

lemma resume_reads:
  "\<exists>n. reads (fst (resume b64 self execution ls)) = take n (map Some ls @ [None])"
proof (induction ls arbitrary: execution)
  case Nil
  have "reads (fst (resume b64 self execution [])) = take 1 (map Some [] @ [None])"
    by (simp add: resume_Nil)
  then show ?case by blast
next
  case (Cons l ls)
  obtain a r where body: "parse_logs_body b64 self execution l = (a, r)"
    by (cases "parse_logs_body b64 self execution l")
  have a: "reads a = []"
    using body_reads [of b64 self execution l] body by simp
  show ?case
  proof (cases r)
    case (Inl e)
    with body a have "reads (fst (resume b64 self execution (l # ls)))
        = take 1 (map Some (l # ls) @ [None])"
      by (simp add: resume_Cons)
    then show ?thesis by blast
  next
    case (Inr execution1)
    obtain a1 r1 where tail: "resume b64 self execution1 ls = (a1, r1)"
      by (cases "resume b64 self execution1 ls")
    from Cons.IH [of execution1] tail obtain n where
      n: "reads a1 = take n (map Some ls @ [None])"
      by auto
    from body a Inr tail have "reads (fst (resume b64 self execution (l # ls))) = Some l # reads a1"
      by (simp add: resume_Cons reads_append)
    with n have "reads (fst (resume b64 self execution (l # ls)))
        = take (Suc n) (map Some (l # ls) @ [None])"
      by simp
    then show ?thesis by blast
  qed
qed

text \<open>The check is not met by a callback that comes late or not at all.\<close>

lemma in_order_rejects_late_callback:
  "\<not> in_order b64 self (Some l) None [Parse data, ToNext r, Callback ev]"
  by (cases "coder self data") (auto split: option.splits)

lemma in_order_rejects_missing_callback:
  "coder self data = Some ev \<Longrightarrow> \<not> in_order b64 self (Some l) None [Parse data, ToNext r]"
  by auto

text \<open>
  C3.  For every input: the actions of the run are in order (the coder is called only
  on the line read last, and the callback is called exactly when the coder has returned
  an event, with that event, as the very next action); the lines are read in input
  order, one per call of \<open>to_next\<close>; and every line that begins with \<open>Program log:\<close>,
  is read while the target is on top of the stack, and decodes to an event, is followed,
  before the next line is read, by the call of \<open>b64decode\<close>, the call of the coder and
  one call of the callback with that event, after which the scan goes on from the same
  execution context.
\<close>

theorem parse_logs_delivery_in_order:
  "in_order b64 self None None (fst (parse_logs b64 self lines)) \<and>
   (\<exists>n. reads (fst (parse_logs b64 self lines)) = take n (map Some lines @ [None])) \<and>
   (lines = first # pre @ l # post \<and>
    parse_logs b64 self (first # pre) = (acts, Inr execution) \<and>
    stack execution \<noteq> [] \<and> last (stack execution) = program_id self \<and>
    startswith l ''Program log:'' \<and>
    b64 (drop LOG_START_INDEX l) = Inr data \<and> coder self data = Some ev \<longrightarrow>
    parse_logs b64 self lines =
      (case resume b64 self execution post of
         (acts', r) \<Rightarrow>
           (butlast acts @ ToNext (Some l) # B64decode (drop LOG_START_INDEX l) # Parse data #
              Callback ev # acts', r)))"
proof -
  have delivered: "parse_logs b64 self lines =
      (case resume b64 self execution post of
         (acts', r) \<Rightarrow>
           (butlast acts @ ToNext (Some l) # B64decode (drop LOG_START_INDEX l) # Parse data #
              Callback ev # acts', r))"
    if lines: "lines = first # pre @ l # post"
      and before: "parse_logs b64 self (first # pre) = (acts, Inr execution)"
      and top: "stack execution \<noteq> []" "last (stack execution) = program_id self"
      and line: "startswith l ''Program log:''"
      and decoded: "b64 (drop LOG_START_INDEX l) = Inr data" "coder self data = Some ev"
  proof -
    from top line decoded have "parse_logs_body b64 self execution l =
        ([B64decode (drop LOG_START_INDEX l), Parse data, Callback ev], Inr execution)"
      by (simp add: parse_logs_body_def handle_log_def handle_program_log_def program_def)
    then have "resume b64 self execution (l # post) =
        (case resume b64 self execution post of
           (acts', r) \<Rightarrow>
             (ToNext (Some l) # B64decode (drop LOG_START_INDEX l) # Parse data #
                Callback ev # acts', r))"
      by (simp add: resume_Cons)
    with parse_logs_append [OF before, of "l # post"] show ?thesis
      unfolding lines by (simp split: prod.splits)
  qed
  have order: "in_order b64 self None None (fst (parse_logs b64 self lines))"
  proof (cases lines)
    case Nil
    then show ?thesis
      by (simp add: parse_logs_def to_next_def ExecutionContext_init_def)
  next
    case (Cons head rest)
    show ?thesis
    proof (cases "ExecutionContext_init (Some head)")
      case (Inl e)
      then show ?thesis
        unfolding Cons by (simp add: parse_logs_Cons)
    next
      case (Inr start)
      obtain a1 r1 where tail: "resume b64 self start rest = (a1, r1)"
        by (cases "resume b64 self start rest")
      with Inr resume_in_order [of b64 self "Some head" start rest] show ?thesis
        unfolding Cons by (simp add: parse_logs_Cons)
    qed
  qed
  have "\<exists>n. reads (fst (parse_logs b64 self lines)) = take n (map Some lines @ [None])"
  proof (cases lines)
    case Nil
    have "reads (fst (parse_logs b64 self [])) = take 1 (map Some [] @ [None])"
      by (simp add: parse_logs_def to_next_def ExecutionContext_init_def)
    then show ?thesis
      unfolding Nil by blast
  next
    case (Cons head rest)
    show ?thesis
    proof (cases "ExecutionContext_init (Some head)")
      case (Inl e)
      then have "reads (fst (parse_logs b64 self (head # rest)))
          = take 1 (map Some (head # rest) @ [None])"
        by (simp add: parse_logs_Cons)
      then show ?thesis
        unfolding Cons by blast
    next
      case (Inr start)
      obtain a1 r1 where tail: "resume b64 self start rest = (a1, r1)"
        by (cases "resume b64 self start rest")
      obtain n where n: "reads a1 = take n (map Some rest @ [None])"
        using resume_reads [of b64 self start rest] tail by auto
      from Inr tail have "reads (fst (parse_logs b64 self (head # rest))) = Some head # reads a1"
        by (simp add: parse_logs_Cons)
      with n have "reads (fst (parse_logs b64 self (head # rest)))
          = take (Suc n) (map Some (head # rest) @ [None])"
        by simp
      then show ?thesis
        unfolding Cons by blast
    qed
  qed
  with order delivered show ?thesis
    by blast
qed

theorem parse_logs_delivery_in_order_witness:
  "in_order b64decode example_parser None None
     [ToNext (Some ''Program A invoke [1]''), ToNext (Some ''Program C invoke [2]''),
      Push ''cpi'', ToNext (Some ''Program C success''), Pop,
      ToNext (Some ''Program log: AQID''), B64decode ''AQID'', Parse [1, 2, 3],
      Callback [1, 2, 3], ToNext (Some ''Program A success''), Pop, ToNext None] \<and>
   [''Program A invoke [1]'', ''Program C invoke [2]'', ''Program C success'',
    ''Program log: AQID'', ''Program A success''] =
     ''Program A invoke [1]'' # [''Program C invoke [2]'', ''Program C success''] @
       ''Program log: AQID'' # [''Program A success''] \<and>
   parse_logs b64decode example_parser
     (''Program A invoke [1]'' # [''Program C invoke [2]'', ''Program C success'']) =
     ([ToNext (Some ''Program A invoke [1]''), ToNext (Some ''Program C invoke [2]''),
       Push ''cpi'', ToNext (Some ''Program C success''), Pop, ToNext None],
      Inr \<lparr>stack = [''A'']\<rparr>) \<and>
   stack \<lparr>stack = [''A'']\<rparr> \<noteq> [] \<and>
   last (stack \<lparr>stack = [''A'']\<rparr>) = program_id example_parser \<and>
   startswith ''Program log: AQID'' ''Program log:'' \<and>
   b64decode (drop LOG_START_INDEX ''Program log: AQID'') = Inr [1, 2, 3] \<and>
   coder example_parser [1, 2, 3] = Some [1, 2, 3] \<and>
   parse_logs b64decode example_parser
     [''Program A invoke [1]'', ''Program C invoke [2]'', ''Program C success'',
      ''Program log: AQID'', ''Program A success''] =
     ([ToNext (Some ''Program A invoke [1]''), ToNext (Some ''Program C invoke [2]''),
       Push ''cpi'', ToNext (Some ''Program C success''), Pop,
       ToNext (Some ''Program log: AQID''), B64decode ''AQID'', Parse [1, 2, 3],
       Callback [1, 2, 3], ToNext (Some ''Program A success''), Pop, ToNext None],
      Inr \<lparr>stack = []\<rparr>)"
proof -
  have h1: "[''Program A invoke [1]'', ''Program C invoke [2]'', ''Program C success'',
      ''Program log: AQID'', ''Program A success''] =
     ''Program A invoke [1]'' # [''Program C invoke [2]'', ''Program C success''] @
       ''Program log: AQID'' # [''Program A success'']"
    by simp
  have h2: "parse_logs b64decode example_parser
     (''Program A invoke [1]'' # [''Program C invoke [2]'', ''Program C success'']) =
     ([ToNext (Some ''Program A invoke [1]''), ToNext (Some ''Program C invoke [2]''),
       Push ''cpi'', ToNext (Some ''Program C success''), Pop, ToNext None],
      Inr \<lparr>stack = [''A'']\<rparr>)"
    by (simp add: run_defs example_defs)
  have h3: "stack \<lparr>stack = [''A'']\<rparr> \<noteq> []"
    by simp
  have h4: "last (stack \<lparr>stack = [''A'']\<rparr>) = program_id example_parser"
    by (simp add: example_defs)
  have h5: "startswith ''Program log: AQID'' ''Program log:''"
    by simp
  have h6: "b64decode (drop LOG_START_INDEX ''Program log: AQID'') = Inr [1, 2, 3]"
    by (simp add: example_defs LOG_START_INDEX_def)
  have h7: "coder example_parser [1, 2, 3] = Some [1, 2, 3]"
    by (simp add: example_defs)
  have rest: "resume b64decode example_parser \<lparr>stack = [''A'']\<rparr> [''Program A success''] =
      ([ToNext (Some ''Program A success''), Pop, ToNext None], Inr \<lparr>stack = []\<rparr>)"
    by (simp add: run_defs example_defs)
  have run: "parse_logs b64decode example_parser
       [''Program A invoke [1]'', ''Program C invoke [2]'', ''Program C success'',
        ''Program log: AQID'', ''Program A success''] =
      (case resume b64decode example_parser \<lparr>stack = [''A'']\<rparr> [''Program A success''] of
         (acts', r) \<Rightarrow>
           (butlast [ToNext (Some ''Program A invoke [1]''),
                     ToNext (Some ''Program C invoke [2]''), Push ''cpi'',
                     ToNext (Some ''Program C success''), Pop, ToNext None] @
            ToNext (Some ''Program log: AQID'') #
            B64decode (drop LOG_START_INDEX ''Program log: AQID'') # Parse [1, 2, 3] #
            Callback [1, 2, 3] # acts', r))"
    using parse_logs_delivery_in_order [of b64decode example_parser
        "[''Program A invoke [1]'', ''Program C invoke [2]'', ''Program C success'',
          ''Program log: AQID'', ''Program A success'']"
        "''Program A invoke [1]''" "[''Program C invoke [2]'', ''Program C success'']"
        "''Program log: AQID''" "[''Program A success'']"
        "[ToNext (Some ''Program A invoke [1]''), ToNext (Some ''Program C invoke [2]''),
          Push ''cpi'', ToNext (Some ''Program C success''), Pop, ToNext None]"
        "\<lparr>stack = [''A'']\<rparr>" "[1, 2, 3]" "[1, 2, 3]", THEN conjunct2, THEN conjunct2]
      h1 h2 h3 h4 h5 h6 h7
    by blast
  have final: "parse_logs b64decode example_parser
       [''Program A invoke [1]'', ''Program C invoke [2]'', ''Program C success'',
        ''Program log: AQID'', ''Program A success''] =
     ([ToNext (Some ''Program A invoke [1]''), ToNext (Some ''Program C invoke [2]''),
       Push ''cpi'', ToNext (Some ''Program C success''), Pop,
       ToNext (Some ''Program log: AQID''), B64decode ''AQID'', Parse [1, 2, 3],
       Callback [1, 2, 3], ToNext (Some ''Program A success''), Pop, ToNext None],
      Inr \<lparr>stack = []\<rparr>)"
    unfolding run rest by (simp add: LOG_START_INDEX_def)
  have "in_order b64decode example_parser None None
      (fst (parse_logs b64decode example_parser
         [''Program A invoke [1]'', ''Program C invoke [2]'', ''Program C success'',
          ''Program log: AQID'', ''Program A success'']))"
    by (rule parse_logs_delivery_in_order [THEN conjunct1])
  then have order: "in_order b64decode example_parser None None
     [ToNext (Some ''Program A invoke [1]''), ToNext (Some ''Program C invoke [2]''),
      Push ''cpi'', ToNext (Some ''Program C success''), Pop,
      ToNext (Some ''Program log: AQID''), B64decode ''AQID'', Parse [1, 2, 3],
      Callback [1, 2, 3], ToNext (Some ''Program A success''), Pop, ToNext None]"
    unfolding final by (simp only: fst_conv)
  from order h1 h2 h3 h4 h5 h6 h7 final show ?thesis
    by (intro conjI)
qed

subsection \<open>Lines that reach \<open>handle_system_log\<close>\<close>

lemma startswith_decompose: "startswith s p \<Longrightarrow> s = p @ drop (length p) s"
  by (induction s p rule: startswith.induct) auto

lemma startswith_set: "startswith s p \<Longrightarrow> set p \<subseteq> set s"
  by (induction s p rule: startswith.induct) auto

lemma split_from_single:
  "c \<notin> set q \<Longrightarrow> split_from [c] cur (q @ c # rest) = (cur @ q) # split_from [c] [] rest"
  by (induction q arbitrary: cur) auto

lemma handle_system_log_program_log:
  assumes "startswith l ''Program log:''"
  shows "handle_system_log self l = Inl (IndexError ''list index out of range'')"
proof -
  from assms have "l = ''Program log:'' @ drop (length ''Program log:'') l"
    by (rule startswith_decompose)
  then obtain x where l: "l = ''Program log:'' @ x" ..
  show ?thesis
    unfolding l by (simp add: handle_system_log_def split_def index_def)
qed

lemma handle_system_log_malformed:
  assumes "log_start = takeWhile (\<lambda>c. c \<noteq> CHR '':'') l"
    and "\<not> contains log_start ''Program '' \<or> \<not> contains (split log_start ''Program '' ! 1) '' ''"
  shows "handle_system_log self l = Inl (IndexError ''list index out of range'')"
proof (cases "contains log_start ''Program ''")
  case False
  then show ?thesis
    by (simp add: handle_system_log_def index_split_colon assms(1) [symmetric] index_split_absent)
next
  case True
  with assms(2) have nospace: "\<not> contains (split log_start ''Program '' ! 1) '' ''"
    by simp
  from True have "2 \<le> length (split log_start ''Program '')"
    by (simp add: split_def split_from_present)
  then have "index (split log_start ''Program '') (Suc 0) = Inr (split log_start ''Program '' ! 1)"
    by (simp add: index_def)
  with nospace show ?thesis
    by (simp add: handle_system_log_def index_split_colon assms(1) [symmetric] index_split_absent)
qed

lemma handle_log_system:
  assumes "\<not> (stack execution \<noteq> [] \<and> last (stack execution) = program_id self \<and>
              startswith l ''Program log:'')"
  shows "handle_log b64 self execution l =
     (case handle_system_log self l of
        Inl e \<Rightarrow> ([], Inl e)
      | Inr (new_program, did_pop) \<Rightarrow> ([], Inr (None, new_program, did_pop)))"
  using assms by (auto simp: handle_log_def handle_program_log_def program_def)

subsection \<open>A completed scan ends with the read that found no line\<close>

lemma resume_ends_with_read:
  "resume b64 self execution ls = (acts, Inr execution') \<Longrightarrow> acts = butlast acts @ [ToNext None]"
proof (induction ls arbitrary: execution acts)
  case Nil
  then show ?case by (auto simp: resume_Nil)
next
  case (Cons l ls)
  from Cons.prems obtain a execution1 a1 where
    rest: "resume b64 self execution1 ls = (a1, Inr execution')" and
    acts: "acts = ToNext (Some l) # a @ a1"
    by (auto simp: resume_Cons split: prod.splits sum.splits)
  from Cons.IH [OF rest] have a1: "a1 = butlast a1 @ [ToNext None]" .
  then have "a1 \<noteq> []" by auto
  then have "butlast acts = ToNext (Some l) # a @ butlast a1"
    by (simp add: acts butlast_append)
  with a1 acts show ?case by simp
qed

lemma parse_logs_ends_with_read:
  assumes "parse_logs b64 self lines = (acts, Inr execution')"
  shows "acts = butlast acts @ [ToNext None]"
proof (cases lines)
  case Nil
  with assms show ?thesis
    by (simp add: parse_logs_def to_next_def ExecutionContext_init_def)
next
  case (Cons first rest)
  with assms obtain execution a where
    pre: "resume b64 self execution rest = (a, Inr execution')" and
    acts: "acts = ToNext (Some first) # a"
    by (auto simp: parse_logs_Cons split: prod.splits sum.splits)
  from resume_ends_with_read [OF pre] have a: "a = butlast a @ [ToNext None]" .
  then have "a \<noteq> []" by auto
  then have "butlast acts = ToNext (Some first) # butlast a"
    by (simp add: acts)
  with a acts show ?thesis by simp
qed

subsection \<open>Payloads that do not decode\<close>

text \<open>
  Let the scan of the lines before \<open>l\<close> complete with the target on top of the
  stack, let \<open>l\<close> begin with \<open>Program log:\<close>, and let \<open>b64decode\<close> raise
  \<open>binascii.Error\<close> on the text after the prefix.  Then the turn of the loop for \<open>l\<close>
  calls \<open>b64decode\<close> and nothing else: no exception, no event, the same execution
  context.  The scan goes on with the lines after \<open>l\<close> from that context, and apart from
  the read of \<open>l\<close> and the call of \<open>b64decode\<close> the whole run is the run on the input
  without \<open>l\<close>: the events of the later lines are delivered as they would be.
\<close>

lemma undecodable_payload_is_skipped:
  assumes "parse_logs b64 self (first # pre) = (acts, Inr execution)"
    and "stack execution \<noteq> []" and "last (stack execution) = program_id self"
    and "startswith l ''Program log:''"
    and "b64 (drop LOG_START_INDEX l) = Inl BinasciiError"
  shows "parse_logs_body b64 self execution l = ([B64decode (drop LOG_START_INDEX l)], Inr execution) \<and>
     parse_logs b64 self (first # pre @ l # post) =
       (case resume b64 self execution post of
          (acts', r) \<Rightarrow>
            (butlast acts @ ToNext (Some l) # B64decode (drop LOG_START_INDEX l) # acts', r)) \<and>
     parse_logs b64 self (first # pre @ post) =
       (case resume b64 self execution post of (acts', r) \<Rightarrow> (butlast acts @ acts', r))"
proof -
  from assms(2-5) have body:
    "parse_logs_body b64 self execution l = ([B64decode (drop LOG_START_INDEX l)], Inr execution)"
    by (simp add: parse_logs_body_def handle_log_def handle_program_log_def program_def)
  then have "resume b64 self execution (l # post) =
      (case resume b64 self execution post of
         (acts', r) \<Rightarrow> (ToNext (Some l) # B64decode (drop LOG_START_INDEX l) # acts', r))"
    by (simp add: resume_Cons)
  with parse_logs_append [OF assms(1), of "l # post"]
  have "parse_logs b64 self (first # pre @ l # post) =
       (case resume b64 self execution post of
          (acts', r) \<Rightarrow>
            (butlast acts @ ToNext (Some l) # B64decode (drop LOG_START_INDEX l) # acts', r))"
    by (simp split: prod.splits)
  with body parse_logs_append [OF assms(1), of post] show ?thesis
    by simp
qed

lemma undecodable_payload_is_skipped_example:
  "parse_logs b64decode example_parser [''Program A invoke [1]''] =
     ([ToNext (Some ''Program A invoke [1]''), ToNext None], Inr \<lparr>stack = [''A'']\<rparr>) \<and>
   stack \<lparr>stack = [''A'']\<rparr> \<noteq> [] \<and>
   last (stack \<lparr>stack = [''A'']\<rparr>) = program_id example_parser \<and>
   startswith ''Program log: not-base64!!'' ''Program log:'' \<and>
   b64decode (drop LOG_START_INDEX ''Program log: not-base64!!'') = Inl BinasciiError \<and>
   parse_logs_body b64decode example_parser \<lparr>stack = [''A'']\<rparr> ''Program log: not-base64!!'' =
     ([B64decode ''not-base64!!''], Inr \<lparr>stack = [''A'']\<rparr>) \<and>
   parse_logs b64decode example_parser
     [''Program A invoke [1]'', ''Program log: not-base64!!'', ''Program log: AQID'',
      ''Program A success''] =
     ([ToNext (Some ''Program A invoke [1]''), ToNext (Some ''Program log: not-base64!!''),
       B64decode ''not-base64!!'', ToNext (Some ''Program log: AQID''), B64decode ''AQID'',
       Parse [1, 2, 3], Callback [1, 2, 3], ToNext (Some ''Program A success''), Pop,
       ToNext None],
      Inr \<lparr>stack = []\<rparr>) \<and>
   parse_logs b64decode example_parser
     [''Program A invoke [1]'', ''Program log: AQID'', ''Program A success''] =
     ([ToNext (Some ''Program A invoke [1]''), ToNext (Some ''Program log: AQID''),
       B64decode ''AQID'', Parse [1, 2, 3], Callback [1, 2, 3],
       ToNext (Some ''Program A success''), Pop, ToNext None],
      Inr \<lparr>stack = []\<rparr>)"
proof -
  have h1: "parse_logs b64decode example_parser (''Program A invoke [1]'' # []) =
     ([ToNext (Some ''Program A invoke [1]''), ToNext None], Inr \<lparr>stack = [''A'']\<rparr>)"
    by (simp add: run_defs example_defs)
  have h2: "stack \<lparr>stack = [''A'']\<rparr> \<noteq> []"
    by simp
  have h3: "last (stack \<lparr>stack = [''A'']\<rparr>) = program_id example_parser"
    by (simp add: example_defs)
  have h4: "startswith ''Program log: not-base64!!'' ''Program log:''"
    by simp
  have h5: "b64decode (drop LOG_START_INDEX ''Program log: not-base64!!'') = Inl BinasciiError"
    by (simp add: example_defs LOG_START_INDEX_def)
  have rest: "resume b64decode example_parser \<lparr>stack = [''A'']\<rparr>
       [''Program log: AQID'', ''Program A success''] =
     ([ToNext (Some ''Program log: AQID''), B64decode ''AQID'', Parse [1, 2, 3],
       Callback [1, 2, 3], ToNext (Some ''Program A success''), Pop, ToNext None],
      Inr \<lparr>stack = []\<rparr>)"
    by (simp add: run_defs example_defs)
  from undecodable_payload_is_skipped [OF h1 h2 h3 h4 h5,
      of "[''Program log: AQID'', ''Program A success'']"] h1 h2 h3 h4 h5 rest
  show ?thesis
    by (simp add: LOG_START_INDEX_def)
qed

text \<open>
  Only \<open>binascii.Error\<close> is caught: any other exception of \<open>b64decode\<close> leaves the
  loop.
\<close>

lemma other_decode_error_propagates:
  assumes "stack execution \<noteq> []" and "last (stack execution) = program_id self"
    and "startswith l ''Program log:''"
    and "b64 (drop LOG_START_INDEX l) = Inl e" and "e \<noteq> BinasciiError"
  shows "parse_logs_body b64 self execution l = ([B64decode (drop LOG_START_INDEX l)], Inl e)"
  using assms
  by (simp add: parse_logs_body_def handle_log_def handle_program_log_def program_def)

text \<open>
  C5, on a payload with a character outside ASCII.  \<open>b64decode\<close> raises \<open>ValueError\<close>
  on it, which is not a \<open>binascii.Error\<close>: the parse ends there, and the event of the
  next line is not delivered.
\<close>

theorem non_ascii_payload_aborts_scan:
  "parse_logs b64decode example_parser
     [''Program A invoke [1]'', ''Program log: caf'' @ [CHR 0xE9], ''Program log: AQID'',
      ''Program A success''] =
   ([ToNext (Some ''Program A invoke [1]''), ToNext (Some (''Program log: caf'' @ [CHR 0xE9])),
     B64decode (''caf'' @ [CHR 0xE9])],
    Inl (ValueError ''string argument should contain only ASCII characters''))"
  by (simp add: run_defs example_defs)

subsection \<open>Lines that do not have the shape \<open>Program <id> <token>\<close>\<close>

text \<open>
  C7.  Let the scan of the lines before \<open>l\<close> complete, let \<open>l\<close> be handled by
  \<open>handle_system_log\<close> (the target is not on top, or \<open>l\<close> does not begin with
  \<open>Program log:\<close>), and let the text of \<open>l\<close> before the first colon either not contain
  \<open>Program \<close> or have no space in the piece after it.  Then the parse ends with
  \<open>IndexError\<close> when \<open>l\<close> has been read: the lines after \<open>l\<close> play no part, and every
  action of the scan before \<open>l\<close>, the calls of the callback among them, is in the run.
\<close>

theorem malformed_line_aborts_scan:
  assumes "parse_logs b64 self (first # pre) = (acts, Inr execution)"
    and "\<not> (stack execution \<noteq> [] \<and> last (stack execution) = program_id self \<and>
            startswith l ''Program log:'')"
    and "log_start = takeWhile (\<lambda>c. c \<noteq> CHR '':'') l"
    and "\<not> contains log_start ''Program '' \<or>
         \<not> contains (split log_start ''Program '' ! 1) '' ''"
  shows "parse_logs b64 self (first # pre @ l # post) =
       (butlast acts @ [ToNext (Some l)], Inl (IndexError ''list index out of range'')) \<and>
     acts = butlast acts @ [ToNext None]"
proof -
  have "handle_system_log self l = Inl (IndexError ''list index out of range'')"
    using assms(3,4) by (rule handle_system_log_malformed)
  with handle_log_system [OF assms(2), of b64]
  have "parse_logs_body b64 self execution l = ([], Inl (IndexError ''list index out of range''))"
    by (simp add: parse_logs_body_def)
  then have "resume b64 self execution (l # post) =
      ([ToNext (Some l)], Inl (IndexError ''list index out of range''))"
    by (simp add: resume_Cons)
  with parse_logs_append [OF assms(1), of "l # post"] parse_logs_ends_with_read [OF assms(1)]
  show ?thesis
    by simp
qed

text \<open>
  The third line of the first example of the specification is such a line, with no
  second token; a line without the marker, after an event has been delivered, is
  another.
\<close>

theorem malformed_line_aborts_scan_witness:
  "parse_logs b64decode example_parser [''Program A invoke [1]'', ''Program B invoke [2]''] =
     ([ToNext (Some ''Program A invoke [1]''), ToNext (Some ''Program B invoke [2]''),
       Push ''cpi'', ToNext None],
      Inr \<lparr>stack = [''A'', ''cpi'']\<rparr>) \<and>
   \<not> (stack \<lparr>stack = [''A'', ''cpi'']\<rparr> \<noteq> [] \<and>
      last (stack \<lparr>stack = [''A'', ''cpi'']\<rparr>) = program_id example_parser \<and>
      startswith ''Program log: AQID'' ''Program log:'') \<and>
   ''Program log'' = takeWhile (\<lambda>c. c \<noteq> CHR '':'') ''Program log: AQID'' \<and>
   contains ''Program log'' ''Program '' \<and>
   \<not> contains (split ''Program log'' ''Program '' ! 1) '' '' \<and>
   parse_logs b64decode example_parser
     [''Program A invoke [1]'', ''Program B invoke [2]'', ''Program log: AQID'',
      ''Program B success'', ''Program A success''] =
     ([ToNext (Some ''Program A invoke [1]''), ToNext (Some ''Program B invoke [2]''),
       Push ''cpi'', ToNext (Some ''Program log: AQID'')],
      Inl (IndexError ''list index out of range'')) \<and>
   parse_logs b64decode example_parser [''Program A invoke [1]'', ''Program log: AQID''] =
     ([ToNext (Some ''Program A invoke [1]''), ToNext (Some ''Program log: AQID''),
       B64decode ''AQID'', Parse [1, 2, 3], Callback [1, 2, 3], ToNext None],
      Inr \<lparr>stack = [''A'']\<rparr>) \<and>
   \<not> (stack \<lparr>stack = [''A'']\<rparr> \<noteq> [] \<and>
      last (stack \<lparr>stack = [''A'']\<rparr>) = program_id example_parser \<and>
      startswith ''transfer done'' ''Program log:'') \<and>
   ''transfer done'' = takeWhile (\<lambda>c. c \<noteq> CHR '':'') ''transfer done'' \<and>
   \<not> contains ''transfer done'' ''Program '' \<and>
   parse_logs b64decode example_parser
     [''Program A invoke [1]'', ''Program log: AQID'', ''transfer done'',
      ''Program A success''] =
     ([ToNext (Some ''Program A invoke [1]''), ToNext (Some ''Program log: AQID''),
       B64decode ''AQID'', Parse [1, 2, 3], Callback [1, 2, 3],
       ToNext (Some ''transfer done'')],
      Inl (IndexError ''list index out of range''))"
proof -
  have h1: "parse_logs b64decode example_parser
       (''Program A invoke [1]'' # [''Program B invoke [2]'']) =
     ([ToNext (Some ''Program A invoke [1]''), ToNext (Some ''Program B invoke [2]''),
       Push ''cpi'', ToNext None],
      Inr \<lparr>stack = [''A'', ''cpi'']\<rparr>)"
    by (simp add: run_defs example_defs)
  have h2: "\<not> (stack \<lparr>stack = [''A'', ''cpi'']\<rparr> \<noteq> [] \<and>
      last (stack \<lparr>stack = [''A'', ''cpi'']\<rparr>) = program_id example_parser \<and>
      startswith ''Program log: AQID'' ''Program log:'')"
    by (simp add: example_defs)
  have h3: "''Program log'' = takeWhile (\<lambda>c. c \<noteq> CHR '':'') ''Program log: AQID''"
    by simp
  have h4: "contains ''Program log'' ''Program ''"
    by simp
  have h5: "\<not> contains (split ''Program log'' ''Program '' ! 1) '' ''"
    by (simp add: split_def)
  from h5 have h6: "\<not> contains ''Program log'' ''Program '' \<or>
      \<not> contains (split ''Program log'' ''Program '' ! 1) '' ''"
    by (rule disjI2)
  have g1: "parse_logs b64decode example_parser
       (''Program A invoke [1]'' # [''Program log: AQID'']) =
     ([ToNext (Some ''Program A invoke [1]''), ToNext (Some ''Program log: AQID''),
       B64decode ''AQID'', Parse [1, 2, 3], Callback [1, 2, 3], ToNext None],
      Inr \<lparr>stack = [''A'']\<rparr>)"
    by (simp add: run_defs example_defs)
  have g2: "\<not> (stack \<lparr>stack = [''A'']\<rparr> \<noteq> [] \<and>
      last (stack \<lparr>stack = [''A'']\<rparr>) = program_id example_parser \<and>
      startswith ''transfer done'' ''Program log:'')"
    by simp
  have g3: "''transfer done'' = takeWhile (\<lambda>c. c \<noteq> CHR '':'') ''transfer done''"
    by simp
  have g4: "\<not> contains ''transfer done'' ''Program ''"
    by simp
  from g4 have g5: "\<not> contains ''transfer done'' ''Program '' \<or>
      \<not> contains (split ''transfer done'' ''Program '' ! 1) '' ''"
    by (rule disjI1)
  from malformed_line_aborts_scan [OF h1 h2 h3 h6,
      of "[''Program B success'', ''Program A success'']"]
    malformed_line_aborts_scan [OF g1 g2 g3 g5, of "[''Program A success'']"]
    h1 h2 h3 h4 h5 g1 g2 g3 g4
  show ?thesis
    by simp
qed

subsection \<open>Invocation end\<close>

text \<open>
  C6.  Let \<open>log\<close> be handled by \<open>handle_system_log\<close>, and let the second token after
  \<open>Program \<close> in its text before the first colon be \<open>success\<close>.  Then the line is
  classified as the end of an invocation: no event, no program to push, and a pop.  The
  turn of the loop pops the top of the stack and pushes nothing; on the empty stack the
  pop raises.
\<close>

theorem success_token_pops:
  assumes "\<not> (stack execution \<noteq> [] \<and> last (stack execution) = program_id self \<and>
            startswith log ''Program log:'')"
    and "log_start = takeWhile (\<lambda>c. c \<noteq> CHR '':'') log"
    and "index (split log_start ''Program '') 1 = Inr rest"
    and "index (split rest '' '') 1 = Inr ''success''"
  shows "handle_log b64 self execution log = ([], Inr (None, None, True)) \<and>
     parse_logs_body b64 self execution log =
       (if stack execution = [] then ([], Inl (IndexError ''pop from empty list''))
        else ([Pop], Inr (execution\<lparr>stack := butlast (stack execution)\<rparr>)))"
proof -
  from assms(2-4) have "handle_system_log self log = Inr (None, True)"
    by (simp add: handle_system_log_def index_split_colon)
  with handle_log_system [OF assms(1), of b64]
  show ?thesis
    by (simp add: parse_logs_body_def pop_def)
qed

theorem success_token_pops_witness:
  "\<not> (stack \<lparr>stack = [''A'', ''cpi'']\<rparr> \<noteq> [] \<and>
      last (stack \<lparr>stack = [''A'', ''cpi'']\<rparr>) = program_id example_parser \<and>
      startswith ''Program C success'' ''Program log:'') \<and>
   ''Program C success'' = takeWhile (\<lambda>c. c \<noteq> CHR '':'') ''Program C success'' \<and>
   index (split ''Program C success'' ''Program '') 1 = Inr ''C success'' \<and>
   index (split ''C success'' '' '') 1 = Inr ''success'' \<and>
   handle_log b64decode example_parser \<lparr>stack = [''A'', ''cpi'']\<rparr> ''Program C success'' =
     ([], Inr (None, None, True)) \<and>
   parse_logs_body b64decode example_parser \<lparr>stack = [''A'', ''cpi'']\<rparr> ''Program C success'' =
     ([Pop], Inr \<lparr>stack = [''A'']\<rparr>)"
proof -
  have h1: "\<not> (stack \<lparr>stack = [''A'', ''cpi'']\<rparr> \<noteq> [] \<and>
      last (stack \<lparr>stack = [''A'', ''cpi'']\<rparr>) = program_id example_parser \<and>
      startswith ''Program C success'' ''Program log:'')"
    by (simp add: example_defs)
  have h2: "''Program C success'' = takeWhile (\<lambda>c. c \<noteq> CHR '':'') ''Program C success''"
    by simp
  have h3: "index (split ''Program C success'' ''Program '') 1 = Inr ''C success''"
    by (simp add: split_def index_def)
  have h4: "index (split ''C success'' '' '') 1 = Inr ''success''"
    by (simp add: split_def index_def)
  from success_token_pops [OF h1 h2 h3 h4, of b64decode] h1 h2 h3 h4
  show ?thesis
    by simp
qed

text \<open>The line \<open>Program q success\<close> is the end of an invocation, whatever \<open>q\<close> names.\<close>

lemma success_line_is_end:
  assumes "CHR '' '' \<notin> set q" and "CHR '':'' \<notin> set q"
    and "\<not> contains (q @ '' success'') ''Program ''"
  shows "handle_system_log self (''Program '' @ q @ '' success'') = Inr (None, True)"
proof -
  have "takeWhile (\<lambda>c. c \<noteq> CHR '':'') (''Program '' @ q @ '' success'')
      = ''Program '' @ q @ '' success''"
    using assms(2) by auto
  then have a: "index (split (''Program '' @ q @ '' success'') '':'') 0
      = Inr (''Program '' @ q @ '' success'')"
    by (simp only: index_split_colon)
  have "split (''Program '' @ q @ '' success'') ''Program '' = [[], q @ '' success'']"
    using assms(3) by (simp add: split_def split_from_absent)
  then have b: "index (split (''Program '' @ q @ '' success'') ''Program '') 1
      = Inr (q @ '' success'')"
    by (simp add: index_def)
  have "split (q @ '' success'') '' '' = [q, ''success'']"
    using split_from_single [OF assms(1), of "[]" "''success''"] by (simp add: split_def)
  then have c: "index (split (q @ '' success'') '' '') 1 = Inr ''success''"
    by (simp add: index_def)
  show ?thesis
    by (simp only: handle_system_log_def a b c sum.case simp_thms if_True)
qed

lemma success_line_not_program_log:
  assumes "CHR '':'' \<notin> set q"
  shows "\<not> startswith (''Program '' @ q @ '' success'') ''Program log:''"
proof
  assume "startswith (''Program '' @ q @ '' success'') ''Program log:''"
  then have "set ''Program log:'' \<subseteq> set (''Program '' @ q @ '' success'')"
    by (rule startswith_set)
  with assms show False by auto
qed

lemma system_log_not_program_log:
  "handle_system_log self l = Inr x \<Longrightarrow> \<not> startswith l ''Program log:''"
  using handle_system_log_program_log [of l self] by auto

lemma body_of_system_log:
  assumes "handle_system_log self l = Inr (new_program, did_pop)"
  shows "parse_logs_body b64 self execution l =
     (let acts = (case new_program of None \<Rightarrow> [] | Some p \<Rightarrow> [Push p]);
          execution1 = (case new_program of None \<Rightarrow> execution | Some p \<Rightarrow> push execution p)
      in if did_pop then
           (case pop execution1 of
              Inl e \<Rightarrow> (acts, Inl e)
            | Inr execution2 \<Rightarrow> (acts @ [Pop], Inr execution2))
         else (acts, Inr execution1))"
proof -
  from assms have "\<not> startswith l ''Program log:''"
    by (rule system_log_not_program_log)
  then have "handle_log b64 self execution l = ([], Inr (None, new_program, did_pop))"
    using assms by (simp add: handle_log_system)
  then show ?thesis
    by (simp add: parse_logs_body_def Let_def split: sum.splits)
qed

lemma system_log_start:
  assumes "handle_system_log self l = Inr (Some p, did_pop)"
  shows "\<not> did_pop \<and>
     p = (if startswith (takeWhile (\<lambda>c. c \<noteq> CHR '':'') l)
               (''Program '' @ program_id self @ '' invoke'')
          then program_id self else ''cpi'')"
  using assms
  by (auto simp: handle_system_log_def index_split_colon split: sum.splits if_splits)

text \<open>
  C10.  A line that \<open>handle_system_log\<close> classifies as the end of an invocation pops
  the top of any non-empty stack, whatever identifier is on top; so does the line
  \<open>Program q success\<close> for every identifier \<open>q\<close>.  A line classified as the start of
  an invocation pushes the target's identifier if it begins with
  \<open>Program <target> invoke\<close> and the fixed \<open>cpi\<close> otherwise, and the next line that
  ends an invocation pops that frame again.
\<close>

theorem pop_ignores_identifiers:
  assumes "handle_system_log self closing = Inr (None, True)"
    and "handle_system_log self opening = Inr (Some p, did_pop)"
    and "stack execution \<noteq> []"
    and "CHR '' '' \<notin> set q" and "CHR '':'' \<notin> set q"
    and "\<not> contains (q @ '' success'') ''Program ''"
  shows "parse_logs_body b64 self execution closing =
       ([Pop], Inr (execution\<lparr>stack := butlast (stack execution)\<rparr>)) \<and>
     parse_logs_body b64 self execution (''Program '' @ q @ '' success'') =
       ([Pop], Inr (execution\<lparr>stack := butlast (stack execution)\<rparr>)) \<and>
     \<not> did_pop \<and>
     p = (if startswith (takeWhile (\<lambda>c. c \<noteq> CHR '':'') opening)
               (''Program '' @ program_id self @ '' invoke'')
          then program_id self else ''cpi'') \<and>
     parse_logs_body b64 self execution opening = ([Push p], Inr (push execution p)) \<and>
     parse_logs_body b64 self (push execution p) closing = ([Pop], Inr execution)"
proof -
  have popped: "parse_logs_body b64 self execution closing =
       ([Pop], Inr (execution\<lparr>stack := butlast (stack execution)\<rparr>))"
    using body_of_system_log [OF assms(1), of b64 execution] assms(3)
    by (simp add: pop_def)
  have "handle_system_log self (''Program '' @ q @ '' success'') = Inr (None, True)"
    using assms(4-6) by (rule success_line_is_end)
  then have q: "parse_logs_body b64 self execution (''Program '' @ q @ '' success'') =
       ([Pop], Inr (execution\<lparr>stack := butlast (stack execution)\<rparr>))"
    using body_of_system_log [of self "''Program '' @ q @ '' success''" None True b64 execution]
      assms(3)
    by (simp add: pop_def)
  have kind: "\<not> did_pop \<and>
     p = (if startswith (takeWhile (\<lambda>c. c \<noteq> CHR '':'') opening)
               (''Program '' @ program_id self @ '' invoke'')
          then program_id self else ''cpi'')"
    using assms(2) by (rule system_log_start)
  then have pushed: "parse_logs_body b64 self execution opening = ([Push p], Inr (push execution p))"
    using body_of_system_log [OF assms(2), of b64 execution] by simp
  have restored: "parse_logs_body b64 self (push execution p) closing = ([Pop], Inr execution)"
    using body_of_system_log [OF assms(1), of b64 "push execution p"]
    by (simp add: pop_def push_def)
  from popped q kind pushed restored show ?thesis
    by blast
qed


theorem pop_ignores_identifiers_witness:
  "handle_system_log example_parser ''Program Z success'' = Inr (None, True) \<and>
   handle_system_log example_parser ''Program B invoke [2]'' = Inr (Some ''cpi'', False) \<and>
   stack \<lparr>stack = [''A'']\<rparr> \<noteq> [] \<and>
   CHR '' '' \<notin> set ''Z'' \<and> CHR '':'' \<notin> set ''Z'' \<and>
   \<not> contains (''Z'' @ '' success'') ''Program '' \<and>
   parse_logs_body b64decode example_parser \<lparr>stack = [''A'']\<rparr> ''Program Z success'' =
     ([Pop], Inr \<lparr>stack = []\<rparr>) \<and>
   parse_logs_body b64decode example_parser \<lparr>stack = [''A'']\<rparr> ''Program B invoke [2]'' =
     ([Push ''cpi''], Inr \<lparr>stack = [''A'', ''cpi'']\<rparr>) \<and>
   parse_logs_body b64decode example_parser \<lparr>stack = [''A'', ''cpi'']\<rparr> ''Program Z success'' =
     ([Pop], Inr \<lparr>stack = [''A'']\<rparr>)"
proof -
  have h1: "handle_system_log example_parser ''Program Z success'' = Inr (None, True)"
    by (simp add: run_defs example_defs)
  have h2: "handle_system_log example_parser ''Program B invoke [2]'' = Inr (Some ''cpi'', False)"
    by (simp add: run_defs example_defs)
  have h3: "stack \<lparr>stack = [''A'']\<rparr> \<noteq> []"
    by simp
  have h4: "CHR '' '' \<notin> set ''Z''" and h5: "CHR '':'' \<notin> set ''Z''"
    by simp_all
  have h6: "\<not> contains (''Z'' @ '' success'') ''Program ''"
    by simp
  from pop_ignores_identifiers [OF h1 h2 h3 h4 h5 h6, of b64decode] h1 h2 h3 h4 h5 h6
  show ?thesis
    by (simp add: push_def)
qed

subsection \<open>The lines of a well-formed log and their classification\<close>

lemma contains_set: "contains s sub \<Longrightarrow> set sub \<subseteq> set s"
proof (induction s)
  case Nil
  then show ?case by simp
next
  case (Cons a s)
  then show ?case
    using startswith_set [of "a # s" sub] by auto
qed

lemma startswith_before_separator:
  "c \<notin> set q \<Longrightarrow> c \<notin> set p \<Longrightarrow> startswith (q @ c # r) (p @ c # r') = (q = p \<and> startswith r r')"
proof (induction q arbitrary: p)
  case Nil
  then show ?case by (cases p) auto
next
  case (Cons x q)
  then show ?case by (cases p) auto
qed

lemma startswith_without_separator:
  "c \<notin> set sub \<Longrightarrow> sub \<noteq> [] \<Longrightarrow> startswith (q @ c # r) sub = startswith q sub"
proof (induction q arbitrary: sub)
  case Nil
  then show ?case by (cases sub) auto
next
  case (Cons x q)
  show ?case
  proof (cases sub)
    case Nil
    with Cons.prems show ?thesis by simp
  next
    case (Cons y ys)
    show ?thesis
    proof (cases ys)
      case Nil
      with Cons show ?thesis by simp
    next
      case (Cons z zs)
      with Cons.prems \<open>sub = y # ys\<close> Cons.IH [of ys] show ?thesis by simp
    qed
  qed
qed

lemma contains_without_separator:
  "c \<notin> set sub \<Longrightarrow> sub \<noteq> [] \<Longrightarrow> contains (q @ c # r) sub = (contains q sub \<or> contains r sub)"
proof (induction q)
  case Nil
  then show ?case by (cases sub) auto
next
  case (Cons x q)
  then show ?case
    using startswith_without_separator [of c sub "x # q" r] by auto
qed

lemma contains_ending_with_separator:
  assumes "c \<notin> set q" and "c \<notin> set s0" and "s0 \<noteq> []"
  shows "contains (q @ c # r) (s0 @ [c]) = (contains (q @ [c]) (s0 @ [c]) \<or> contains r (s0 @ [c]))"
  using assms(1)
proof (induction q)
  case Nil
  from assms(2,3) show ?case by (cases s0) auto
next
  case (Cons x q)
  have "startswith ((x # q) @ c # r) (s0 @ c # []) = (x # q = s0 \<and> startswith r [])"
    using Cons.prems assms(2) by (intro startswith_before_separator) auto
  moreover have "startswith ((x # q) @ c # []) (s0 @ c # []) = (x # q = s0 \<and> startswith [] [])"
    using Cons.prems assms(2) by (intro startswith_before_separator) auto
  ultimately have "startswith (x # q @ c # r) (s0 @ [c]) = startswith (x # q @ [c]) (s0 @ [c])"
    by simp
  with Cons show ?case by auto
qed


lemma startswith_append_self: "startswith (p @ r) p"
  by (induction p) auto

lemma split_from_first_separator:
  "c \<notin> set q \<Longrightarrow>
   split_from (c # sep) cur (q @ c # sep @ rest) = (cur @ q) # split_from (c # sep) [] rest"
  by (induction q arbitrary: cur) (auto simp: startswith_append_self)

lemma digits_set: "digits d \<Longrightarrow> set d \<subseteq> set ''0123456789''"
  by (auto simp: digits_def list_all_iff)

lemma marker_absent_after_name:
  assumes "program_name q" and "CHR ''P'' \<notin> set r"
  shows "\<not> contains (q @ CHR '' '' # r) ''Program ''"
proof -
  have "\<not> contains r ''Program ''"
    using contains_set [of r "''Program ''"] assms(2) by auto
  moreover have "\<not> contains (q @ [CHR '' '']) (''Program'' @ [CHR '' ''])"
    using assms(1) by (simp add: program_name_def)
  moreover have "contains (q @ CHR '' '' # r) (''Program'' @ [CHR '' '']) =
      (contains (q @ [CHR '' '']) (''Program'' @ [CHR '' '']) \<or>
       contains r (''Program'' @ [CHR '' '']))"
    using assms(1) by (intro contains_ending_with_separator) (auto simp: program_name_def)
  ultimately show ?thesis by simp
qed

lemma classify_line:
  assumes q: "program_name q" and r: "CHR ''P'' \<notin> set r" "CHR '':'' \<notin> set r"
    and token: "index (split r '' '') 0 = Inr token"
    and pid: "CHR '' '' \<notin> set (program_id self)"
  shows "handle_system_log self (''Program '' @ q @ CHR '' '' # r) =
     (if token = ''success'' then Inr (None, True)
      else if q = program_id self \<and> startswith r ''invoke'' then Inr (Some (program_id self), False)
      else if contains q ''invoke'' \<or> contains r ''invoke'' then Inr (Some ''cpi'', False)
      else Inr (None, False))"
proof -
  define line where "line = ''Program '' @ q @ CHR '' '' # r"
  define rest where "rest = q @ CHR '' '' # r"
  have "takeWhile (\<lambda>c. c \<noteq> CHR '':'') line = line"
    using q r(2) by (auto simp: line_def program_name_def)
  then have a: "index (split line '':'') 0 = Inr line"
    by (simp only: index_split_colon)
  have "\<not> contains rest ''Program ''"
    unfolding rest_def using q r(1) by (rule marker_absent_after_name)
  then have "split line ''Program '' = [[], rest]"
    by (simp add: line_def rest_def split_def split_from_absent)
  then have b: "index (split line ''Program '') 1 = Inr rest"
    by (simp add: index_def)
  have "split rest '' '' = q # split r '' ''"
    using q split_from_single [of "CHR '' ''" q "[]" r]
    by (simp add: rest_def split_def program_name_def)
  moreover from token have "split r '' '' \<noteq> [] \<and> split r '' '' ! 0 = token"
    by (auto simp: index_def split: if_splits)
  ultimately have c: "index (split rest '' '') 1 = Inr token"
    by (cases "split r '' ''") (auto simp: index_def)
  have "startswith (''Program '' @ rest) (''Program '' @ program_id self @ CHR '' '' # ''invoke'')
      = startswith rest (program_id self @ CHR '' '' # ''invoke'')"
    by simp
  also have "\<dots> = (q = program_id self \<and> startswith r ''invoke'')"
    unfolding rest_def using q pid
    by (intro startswith_before_separator) (auto simp: program_name_def)
  finally have d: "startswith line (''Program '' @ program_id self @ '' invoke'')
      = (q = program_id self \<and> startswith r ''invoke'')"
    by (simp add: line_def rest_def)
  have "contains (''Program'' @ CHR '' '' # rest) ''invoke'' =
      (contains ''Program'' ''invoke'' \<or> contains rest ''invoke'')"
    by (intro contains_without_separator) auto
  moreover have "contains rest ''invoke'' = (contains q ''invoke'' \<or> contains r ''invoke'')"
    unfolding rest_def by (intro contains_without_separator) auto
  ultimately have e: "contains line ''invoke'' = (contains q ''invoke'' \<or> contains r ''invoke'')"
    by (simp add: line_def rest_def)
  have "handle_system_log self line =
     (if token = ''success'' then Inr (None, True)
      else if q = program_id self \<and> startswith r ''invoke'' then Inr (Some (program_id self), False)
      else if contains q ''invoke'' \<or> contains r ''invoke'' then Inr (Some ''cpi'', False)
      else Inr (None, False))"
    by (simp only: handle_system_log_def a b c d e sum.case)
  then show ?thesis
    by (simp only: line_def)
qed


lemma digits_chars: "digits d \<Longrightarrow> CHR ''P'' \<notin> set d \<and> CHR '':'' \<notin> set d \<and> CHR ''v'' \<notin> set d"
  using digits_set [of d] by auto

lemma classify_invoke_line:
  assumes "program_name q" and "digits depth" and "CHR '' '' \<notin> set (program_id self)"
  shows "handle_system_log self (invoke_line q depth) =
     Inr (Some (if q = program_id self then program_id self else ''cpi''), False)"
proof -
  have "index (split (''invoke ['' @ depth @ '']'') '' '') 0 = Inr ''invoke''"
    by (simp add: split_def index_def)
  from classify_line [OF assms(1) _ _ this assms(3)] digits_chars [OF assms(2)]
  show ?thesis
    by (simp add: invoke_line_def)
qed

lemma classify_success_line:
  assumes "program_name q" and "CHR '' '' \<notin> set (program_id self)"
  shows "handle_system_log self (success_line q) = Inr (None, True)"
proof -
  have "index (split ''success'' '' '') 0 = Inr ''success''"
    by (simp add: split_def index_def)
  from classify_line [OF assms(1) _ _ this assms(2)]
  show ?thesis
    by (simp add: success_line_def)
qed

lemma classify_consumed_line:
  assumes "program_name q" and "digits used" and "digits budget"
    and "CHR '' '' \<notin> set (program_id self)"
  shows "handle_system_log self (consumed_line q used budget) = Inr (None, False)"
proof -
  define r where "r = ''consumed '' @ used @ '' of '' @ budget @ '' compute units''"
  have token: "index (split r '' '') 0 = Inr ''consumed''"
    by (simp add: r_def split_def index_def)
  have chars: "CHR ''P'' \<notin> set r" "CHR '':'' \<notin> set r" "CHR ''v'' \<notin> set r"
    using digits_chars [OF assms(2)] digits_chars [OF assms(3)] by (auto simp: r_def)
  have "\<not> contains r ''invoke''"
    using contains_set [of r "''invoke''"] chars(3) by auto
  moreover have "\<not> contains q ''invoke''"
    using assms(1) by (simp add: program_name_def)
  moreover have "\<not> startswith r ''invoke''"
    by (simp add: r_def)
  ultimately have "handle_system_log self (''Program '' @ q @ CHR '' '' # r) = Inr (None, False)"
    using classify_line [OF assms(1) chars(1,2) token assms(4)] by simp
  then show ?thesis
    by (simp add: consumed_line_def r_def)
qed

lemma init_invoke_line:
  assumes "program_name q" and "digits depth"
  shows "ExecutionContext_init (Some (invoke_line q depth)) = Inr \<lparr>stack = [q]\<rparr>"
proof -
  define rest where "rest = q @ CHR '' '' # ''invoke ['' @ depth @ '']''"
  have "\<not> contains rest ''Program ''"
    unfolding rest_def using assms(1) digits_chars [OF assms(2)]
    by (intro marker_absent_after_name) auto
  then have "split (''Program '' @ rest) ''Program '' = [[], rest]"
    by (simp add: split_def split_from_absent)
  then have a: "index (split (''Program '' @ rest) ''Program '') 1 = Inr rest"
    by (simp add: index_def)
  have "split_from (CHR '' '' # ''invoke ['') [] (q @ CHR '' '' # ''invoke ['' @ (depth @ '']''))
      = ([] @ q) # split_from (CHR '' '' # ''invoke ['') [] (depth @ '']'')"
    using assms(1) by (intro split_from_first_separator) (simp add: program_name_def)
  then have b: "index (split rest '' invoke ['') 0 = Inr q"
    by (simp add: rest_def split_def index_def)
  have "ExecutionContext_init (Some (''Program '' @ rest)) = Inr \<lparr>stack = [q]\<rparr>"
    by (simp only: ExecutionContext_init_def option.case a b sum.case)
  then show ?thesis
    by (simp add: invoke_line_def rest_def)
qed

subsection \<open>The depth of the stack on well-formed inputs\<close>

lemma pushes_append: "pushes (xs @ ys) = pushes xs + pushes ys"
  by (induction xs rule: pushes.induct) auto

lemma pops_append: "pops (xs @ ys) = pops xs + pops ys"
  by (induction xs rule: pops.induct) auto

lemma butlast_counts:
  assumes "acts = butlast acts @ [ToNext None]"
  shows "pushes (butlast acts) = pushes acts" and "pops (butlast acts) = pops acts"
proof -
  have "pushes acts = pushes (butlast acts @ [ToNext None])"
    using assms by simp
  then show "pushes (butlast acts) = pushes acts"
    by (simp add: pushes_append)
  have "pops acts = pops (butlast acts @ [ToNext None])"
    using assms by simp
  then show "pops (butlast acts) = pops acts"
    by (simp add: pops_append)
qed

lemma body_of_message_line:
  assumes "stack execution \<noteq> []" and "last (stack execution) = program_id self"
    and "b64 payload = Inl BinasciiError \<or> b64 payload = Inr data"
  shows "\<exists>acts. parse_logs_body b64 self execution (message_line payload) = (acts, Inr execution) \<and>
           pushes acts = 0 \<and> pops acts = 0"
  using assms
  by (auto simp: parse_logs_body_def handle_log_def handle_program_log_def program_def Let_def
      message_line_def LOG_START_INDEX_def split: option.splits)


lemma resume_step:
  assumes "parse_logs_body b64 self execution l = (a, Inr execution1)"
    and "resume b64 self execution1 ls = (acts, r)"
  shows "resume b64 self execution (l # ls) = (ToNext (Some l) # a @ acts, r)"
  using assms by (simp add: resume_Cons)

lemma nested_scan:
  assumes "nested b64 (program_id self) on_top ls"
    and "CHR '' '' \<notin> set (program_id self)"
    and "on_top \<longrightarrow> stack execution \<noteq> [] \<and> last (stack execution) = program_id self"
  shows "\<exists>acts. resume b64 self execution ls = (acts, Inr execution) \<and> pushes acts = pops acts"
  using assms(1,3)
proof (induction arbitrary: execution rule: nested.induct)
  case (nothing on_top)
  show ?case by (simp add: resume_Nil)
next
  case (consumed q used budget on_top ls)
  have "handle_system_log self (consumed_line q used budget) = Inr (None, False)"
    using consumed.hyps(1-3) assms(2) by (rule classify_consumed_line)
  then have "parse_logs_body b64 self execution (consumed_line q used budget) = ([], Inr execution)"
    using body_of_system_log [of self _ None False b64 execution] by simp
  moreover from consumed.IH [OF consumed.prems] obtain acts where
    "resume b64 self execution ls = (acts, Inr execution)" "pushes acts = pops acts"
    by blast
  ultimately show ?case
    by (simp add: resume_Cons)
next
  case (undecodable payload ls)
  from undecodable.prems undecodable.hyps(1) obtain a where
    "parse_logs_body b64 self execution (message_line payload) = (a, Inr execution)"
    "pushes a = 0" "pops a = 0"
    using body_of_message_line [of execution self b64 payload] by blast
  moreover from undecodable.IH [OF undecodable.prems] obtain acts where
    "resume b64 self execution ls = (acts, Inr execution)" "pushes acts = pops acts"
    by blast
  ultimately show ?case
    by (simp add: resume_Cons pushes_append pops_append)
next
  case (message payload data ls)
  from message.prems message.hyps(1) obtain a where
    "parse_logs_body b64 self execution (message_line payload) = (a, Inr execution)"
    "pushes a = 0" "pops a = 0"
    using body_of_message_line [of execution self b64 payload data] by blast
  moreover from message.IH [OF message.prems] obtain acts where
    "resume b64 self execution ls = (acts, Inr execution)" "pushes acts = pops acts"
    by blast
  ultimately show ?case
    by (simp add: resume_Cons pushes_append pops_append)
next
  case (invocation q depth body on_top ls)
  define p where "p = (if q = program_id self then program_id self else ''cpi'')"
  have "handle_system_log self (invoke_line q depth) = Inr (Some p, False)"
    unfolding p_def using invocation.hyps(1,2) assms(2) by (rule classify_invoke_line)
  then have enter: "parse_logs_body b64 self execution (invoke_line q depth) =
      ([Push p], Inr (push execution p))"
    using body_of_system_log [of self _ "Some p" False b64 execution] by simp
  have "(q = program_id self) \<longrightarrow>
      stack (push execution p) \<noteq> [] \<and> last (stack (push execution p)) = program_id self"
    by (simp add: push_def p_def)
  from invocation.IH(1) [OF this] obtain inner where
    inner: "resume b64 self (push execution p) body = (inner, Inr (push execution p))" and
    inner_balance: "pushes inner = pops inner"
    by blast
  have "handle_system_log self (success_line q) = Inr (None, True)"
    using invocation.hyps(1) assms(2) by (rule classify_success_line)
  then have leave: "parse_logs_body b64 self (push execution p) (success_line q) =
      ([Pop], Inr execution)"
    using body_of_system_log [of self _ None True b64 "push execution p"]
    by (simp add: pop_def push_def)
  from invocation.IH(2) [OF invocation.prems] obtain after where
    after: "resume b64 self execution ls = (after, Inr execution)" and
    after_balance: "pushes after = pops after"
    by blast
  from leave after have tail: "resume b64 self (push execution p) (success_line q # ls) =
      (ToNext (Some (success_line q)) # Pop # after, Inr execution)"
    by (simp add: resume_Cons)
  from resume_append [OF inner, of "success_line q # ls"] tail
  have "resume b64 self (push execution p) (body @ success_line q # ls) =
      (butlast inner @ ToNext (Some (success_line q)) # Pop # after, Inr execution)"
    by simp
  with enter have "resume b64 self execution (invoke_line q depth # body @ success_line q # ls) =
      (ToNext (Some (invoke_line q depth)) # Push p # butlast inner @
         ToNext (Some (success_line q)) # Pop # after,
       Inr execution)"
    by (simp add: resume_Cons)
  moreover have "pushes (butlast inner) = pushes inner" "pops (butlast inner) = pops inner"
    using butlast_counts [OF resume_ends_with_read [OF inner]] by simp_all
  ultimately show ?case
    using inner_balance after_balance by (simp add: pushes_append pops_append)
qed

lemma nested_prefix:
  assumes "nested b64 (program_id self) on_top ls"
    and "CHR '' '' \<notin> set (program_id self)"
    and "on_top \<longrightarrow> stack execution \<noteq> [] \<and> last (stack execution) = program_id self"
    and "ls = pre @ post"
  shows "\<exists>acts execution'. resume b64 self execution pre = (acts, Inr execution') \<and>
           length (stack execution) \<le> length (stack execution')"
  using assms(1,3,4)
proof (induction arbitrary: execution pre post rule: nested.induct)
  case (nothing on_top)
  then show ?case by (simp add: resume_Nil)
next
  case (consumed q used budget on_top ls)
  show ?case
  proof (cases pre)
    case Nil
    then show ?thesis by (simp add: resume_Nil)
  next
    case (Cons l pre')
    with consumed.prems(2) have l: "l = consumed_line q used budget" and ls: "ls = pre' @ post"
      by simp_all
    have "handle_system_log self (consumed_line q used budget) = Inr (None, False)"
      using consumed.hyps(1-3) assms(2) by (rule classify_consumed_line)
    then have "parse_logs_body b64 self execution l = ([], Inr execution)"
      using body_of_system_log [of self _ None False b64 execution] l by simp
    moreover from consumed.IH [OF consumed.prems(1) ls] obtain acts execution' where
      "resume b64 self execution pre' = (acts, Inr execution')"
      "length (stack execution) \<le> length (stack execution')"
      by blast
    ultimately show ?thesis
      unfolding Cons by (simp add: resume_Cons)
  qed
next
  case (undecodable payload ls)
  show ?case
  proof (cases pre)
    case Nil
    then show ?thesis by (simp add: resume_Nil)
  next
    case (Cons l pre')
    with undecodable.prems(2) have l: "l = message_line payload" and ls: "ls = pre' @ post"
      by simp_all
    from undecodable.prems(1) undecodable.hyps(1) obtain a where
      "parse_logs_body b64 self execution l = (a, Inr execution)"
      using body_of_message_line [of execution self b64 payload] l by blast
    moreover from undecodable.IH [OF undecodable.prems(1) ls] obtain acts execution' where
      "resume b64 self execution pre' = (acts, Inr execution')"
      "length (stack execution) \<le> length (stack execution')"
      by blast
    ultimately show ?thesis
      unfolding Cons by (simp add: resume_Cons)
  qed
next
  case (message payload data ls)
  show ?case
  proof (cases pre)
    case Nil
    then show ?thesis by (simp add: resume_Nil)
  next
    case (Cons l pre')
    with message.prems(2) have l: "l = message_line payload" and ls: "ls = pre' @ post"
      by simp_all
    from message.prems(1) message.hyps(1) obtain a where
      "parse_logs_body b64 self execution l = (a, Inr execution)"
      using body_of_message_line [of execution self b64 payload data] l by blast
    moreover from message.IH [OF message.prems(1) ls] obtain acts execution' where
      "resume b64 self execution pre' = (acts, Inr execution')"
      "length (stack execution) \<le> length (stack execution')"
      by blast
    ultimately show ?thesis
      unfolding Cons by (simp add: resume_Cons)
  qed
next
  case (invocation q depth body on_top ls)
  define p where "p = (if q = program_id self then program_id self else ''cpi'')"
  have "handle_system_log self (invoke_line q depth) = Inr (Some p, False)"
    unfolding p_def using invocation.hyps(1,2) assms(2) by (rule classify_invoke_line)
  then have enter: "parse_logs_body b64 self execution (invoke_line q depth) =
      ([Push p], Inr (push execution p))"
    using body_of_system_log [of self _ "Some p" False b64 execution] by simp
  have top: "(q = program_id self) \<longrightarrow>
      stack (push execution p) \<noteq> [] \<and> last (stack (push execution p)) = program_id self"
    by (simp add: push_def p_def)
  show ?case
  proof (cases pre)
    case Nil
    then show ?thesis by (simp add: resume_Nil)
  next
    case (Cons l pre')
    with invocation.prems(2) have l: "l = invoke_line q depth"
      and split: "body @ success_line q # ls = pre' @ post"
      by simp_all
    from split obtain us where
      "(body = pre' @ us \<and> us @ success_line q # ls = post) \<or>
       (body @ us = pre' \<and> success_line q # ls = us @ post)"
      by (auto simp: append_eq_append_conv2)
    then consider (inside) us where "body = pre' @ us"
      | (beyond) pre'' where "pre' = body @ success_line q # pre''" "ls = pre'' @ post"
      by (cases us) (auto simp: Cons_eq_append_conv)
    then show ?thesis
    proof cases
      case inside
      from invocation.IH(1) [OF top inside] obtain acts execution' where
        "resume b64 self (push execution p) pre' = (acts, Inr execution')"
        "length (stack (push execution p)) \<le> length (stack execution')"
        by blast
      with enter l show ?thesis
        unfolding Cons by (simp add: resume_Cons push_def)
    next
      case beyond
      from nested_scan [OF invocation.hyps(3) assms(2) top] obtain inner where
        inner: "resume b64 self (push execution p) body = (inner, Inr (push execution p))"
        by blast
      have "handle_system_log self (success_line q) = Inr (None, True)"
        using invocation.hyps(1) assms(2) by (rule classify_success_line)
      then have leave: "parse_logs_body b64 self (push execution p) (success_line q) =
          ([Pop], Inr execution)"
        using body_of_system_log [of self _ None True b64 "push execution p"]
        by (simp add: pop_def push_def)
      from invocation.IH(2) [OF invocation.prems(1) beyond(2)] obtain acts execution' where
        rest: "resume b64 self execution pre'' = (acts, Inr execution')" and
        depth: "length (stack execution) \<le> length (stack execution')"
        by blast
      from leave rest have "resume b64 self (push execution p) (success_line q # pre'') =
          (ToNext (Some (success_line q)) # Pop # acts, Inr execution')"
        by (simp add: resume_Cons)
      with resume_append [OF inner, of "success_line q # pre''"]
      have "resume b64 self (push execution p) pre' =
          (butlast inner @ ToNext (Some (success_line q)) # Pop # acts, Inr execution')"
        by (simp add: beyond(1))
      with enter l depth show ?thesis
        unfolding Cons by (simp add: resume_Cons)
    qed
  qed
qed


lemma body_depth:
  "parse_logs_body b64 self execution l = (a, Inr execution1) \<Longrightarrow>
   length (stack execution1) + pops a = length (stack execution) + pushes a"
  by (auto simp: parse_logs_body_def handle_log_def handle_program_log_def handle_system_log_def
      Let_def push_def pop_def pushes_append pops_append
      split: sum.splits prod.splits option.splits if_splits)

lemma resume_depth:
  "resume b64 self execution ls = (acts, Inr execution') \<Longrightarrow>
   length (stack execution') + pops acts = length (stack execution) + pushes acts"
proof (induction ls arbitrary: execution acts)
  case Nil
  then show ?case by (auto simp: resume_Nil)
next
  case (Cons l ls)
  from Cons.prems obtain a execution1 a1 where
    body: "parse_logs_body b64 self execution l = (a, Inr execution1)" and
    rest: "resume b64 self execution1 ls = (a1, Inr execution')" and
    acts: "acts = ToNext (Some l) # a @ a1"
    by (auto simp: resume_Cons split: prod.splits sum.splits)
  from body_depth [OF body] Cons.IH [OF rest] show ?case
    by (simp add: acts pushes_append pops_append)
qed



text \<open>An input with an inner invocation, \<open>consumed\<close> lines and an event.\<close>

lemma example_lines:
  "invoke_line ''A'' ''1'' = ''Program A invoke [1]''"
  "invoke_line ''C'' ''2'' = ''Program C invoke [2]''"
  "consumed_line ''C'' ''2000'' ''200000'' = ''Program C consumed 2000 of 200000 compute units''"
  "consumed_line ''A'' ''5000'' ''200000'' = ''Program A consumed 5000 of 200000 compute units''"
  "success_line ''C'' = ''Program C success''"
  "success_line ''A'' = ''Program A success''"
  "message_line ''AQID'' = ''Program log: AQID''"
  by (simp_all add: invoke_line_def consumed_line_def success_line_def message_line_def)

lemma example_names:
  "program_name ''A''" "program_name ''C''"
  "digits ''1''" "digits ''2''" "digits ''2000''" "digits ''5000''" "digits ''200000''"
  by (simp_all add: program_name_def digits_def)

lemma example_well_formed:
  "well_formed b64decode ''A''
     [''Program A invoke [1]'', ''Program C invoke [2]'',
      ''Program C consumed 2000 of 200000 compute units'', ''Program C success'',
      ''Program log: AQID'', ''Program A consumed 5000 of 200000 compute units'',
      ''Program A success'']"
proof -
  have m: "b64decode ''AQID'' = Inr [1, 2, 3]"
    by (simp add: example_defs)
  have tail: "nested b64decode ''A'' True
      [message_line ''AQID'', consumed_line ''A'' ''5000'' ''200000'']"
    by (intro nested.message [of b64decode "''AQID''" "[1, 2, 3]"] nested.consumed
        nested.nothing m example_names)
  have inner: "nested b64decode ''A'' (''C'' = ''A'') [consumed_line ''C'' ''2000'' ''200000'']"
    by (intro nested.consumed nested.nothing example_names)
  have "nested b64decode ''A'' True
      (invoke_line ''C'' ''2'' # [consumed_line ''C'' ''2000'' ''200000''] @
         success_line ''C'' # [message_line ''AQID'', consumed_line ''A'' ''5000'' ''200000''])"
    using example_names(2,4) inner tail by (rule nested.invocation)
  then have "nested b64decode ''A'' (''A'' = ''A'')
      [invoke_line ''C'' ''2'', consumed_line ''C'' ''2000'' ''200000'', success_line ''C'',
       message_line ''AQID'', consumed_line ''A'' ''5000'' ''200000'']"
    by simp
  from well_formed.outermost [OF example_names(1,3) this] show ?thesis
    by (simp add: example_lines)
qed



end
